theory Spec2Isabelle
  imports Complex_Main "HOL-Library.Word" "HOL-Library.AList"
begin

section \<open>CameraImageProvider (src/systems/cv/cameraImageProvider.js, push-driven revision)\<close>

text \<open>
  The provider is a JavaScript object mutated by callbacks of one event loop. Each method
  is a function from the provider's state to its new state. Output that the claims speak
  about is kept in the state: the calls of \<open>processor.processImage\<close> made so far
  (\<open>invocations\<close>), the promises of distribution rounds that have not settled yet
  (\<open>rounds\<close>) and the lines written with \<open>console.error\<close> (\<open>errorLog\<close>).
  Messages written only under \<open>options.debug\<close> are not part of the model.
\<close>

subsection \<open>Data\<close>

text \<open>The four capture helpers \<open>_detectAndInitializeApi\<close> can install, by \<open>activeApiName\<close>.\<close>

datatype api = WebARViewer | WebXRRawCamera | ARHeadsetGUM | WebARGUM

text \<open>
  \<open>prototype.usesXRFrame\<close>: true for the raw camera helper, false for the helpers that
  push frames through \<open>providerInterface.distributeFrameData\<close>.
\<close>

fun usesXRFrame :: "api \<Rightarrow> bool" where
  "usesXRFrame WebXRRawCamera = True"
| "usesXRFrame WebARViewer = False"
| "usesXRFrame ARHeadsetGUM = False"
| "usesXRFrame WebARGUM = False"

text \<open>
  Every helper class extends \<open>BaseCaptureHelper\<close>, which defines \<open>startStreaming\<close> and
  \<open>stopStreaming\<close>; the provider still tests \<open>typeof ... === 'function'\<close>.
\<close>

fun hasStartStreaming :: "api \<Rightarrow> bool" where
  "hasStartStreaming a = True"

fun hasStopStreaming :: "api \<Rightarrow> bool" where
  "hasStopStreaming a = True"

record helper =
  api :: api
  isStreaming :: bool

text \<open>
  A pushed \<open>frameData\<close> object; a field is \<open>None\<close> when it is null or undefined. The
  payloads are opaque to the provider and are named by numbers.
\<close>

record frameData =
  imageData :: "nat option"
  metadata :: "nat option"

text \<open>The argument of \<open>registerProcessor\<close>: an object (its identity) and \<open>typeof processImage\<close>.\<close>

record processor =
  pid :: nat
  processImageIsFunction :: bool

text \<open>One call \<open>processor.processImage(imageData, metadata)\<close> and the promise it returned.\<close>

record invocation =
  promise :: nat
  target :: nat
  imageArg :: nat
  metadataArg :: nat

datatype settlement = Fulfilled | Rejected string

record provider =
  xrSession :: bool
  gl :: bool
  xrRefSpace :: bool
  processors :: "nat list"
  activeApiName :: "api option"
  captureHelper :: "helper option"
  isCapturing :: bool
  isPipelineBusy :: bool
  xrFrameRequests :: nat
  invocations :: "invocation list"
  rounds :: "nat list list"
  nextPromise :: nat
  errorLog :: "string list"

text \<open>The constructor; the arguments say which of the session, GL context and reference space are given.\<close>

definition newProvider :: "bool \<Rightarrow> bool \<Rightarrow> bool \<Rightarrow> provider" where
  "newProvider session glContext refSpace =
     \<lparr>xrSession = session, gl = glContext, xrRefSpace = refSpace, processors = [],
      activeApiName = None, captureHelper = None, isCapturing = False,
      isPipelineBusy = False, xrFrameRequests = 0, invocations = [], rounds = [],
      nextPromise = 0, errorLog = []\<rparr>"

subsection \<open>The processor set\<close>

text \<open>\<open>Set.prototype.add\<close> and \<open>delete\<close> on a set kept in insertion order.\<close>

definition set_add :: "nat \<Rightarrow> nat list \<Rightarrow> nat list" where
  "set_add p ps = (if p \<in> set ps then ps else ps @ [p])"

definition set_delete :: "nat \<Rightarrow> nat list \<Rightarrow> nat list" where
  "set_delete p ps = removeAll p ps"

subsection \<open>Starting and stopping the capture loop\<close>

definition startStreaming :: "helper \<Rightarrow> helper" where
  "startStreaming h = h\<lparr>isStreaming := True\<rparr>"

definition stopStreaming :: "helper \<Rightarrow> helper" where
  "stopStreaming h = h\<lparr>isStreaming := False\<rparr>"

definition startCaptureLoop :: "provider \<Rightarrow> provider" where
  "startCaptureLoop s =
     (case captureHelper s of
        None \<Rightarrow> s
      | Some h \<Rightarrow>
          if isCapturing s then s
          else if usesXRFrame (api h) then
            (if xrSession s
             then s\<lparr>isCapturing := True, xrFrameRequests := Suc (xrFrameRequests s)\<rparr>
             else s\<lparr>isCapturing := False,
                    errorLog := errorLog s @ [''XR session not available. Cannot start XR frame loop.'']\<rparr>)
          else if hasStartStreaming (api h)
            then s\<lparr>isCapturing := True, captureHelper := Some (startStreaming h)\<rparr>
            else s\<lparr>isCapturing := False\<rparr>)"

definition stopCaptureLoop :: "provider \<Rightarrow> provider" where
  "stopCaptureLoop s =
     (if \<not> isCapturing s then s
      else (case captureHelper s of
              None \<Rightarrow> s\<lparr>isCapturing := False\<rparr>
            | Some h \<Rightarrow>
                if hasStopStreaming (api h)
                then s\<lparr>isCapturing := False, captureHelper := Some (stopStreaming h)\<rparr>
                else s\<lparr>isCapturing := False\<rparr>))"

subsection \<open>Registration\<close>

definition registerProcessor :: "processor \<Rightarrow> provider \<Rightarrow> provider" where
  "registerProcessor p s =
     (if \<not> processImageIsFunction p
      then s\<lparr>errorLog := errorLog s @
               [''Processor must implement processImage(imageData, metadata) that returns a Promise.'']\<rparr>
      else
        let s1 = s\<lparr>processors := set_add (pid p) (processors s)\<rparr>
        in if captureHelper s1 \<noteq> None \<and> \<not> isCapturing s1 \<and> processors s1 \<noteq> []
           then startCaptureLoop s1 else s1)"

definition unregisterProcessor :: "processor \<Rightarrow> provider \<Rightarrow> provider" where
  "unregisterProcessor p s =
     (let s1 = s\<lparr>processors := set_delete (pid p) (processors s)\<rparr>
      in if isCapturing s1 \<and> processors s1 = [] then stopCaptureLoop s1 else s1)"

subsection \<open>Capture-source activation\<close>

text \<open>
  \<open>_detectAndInitializeApi\<close> and \<open>_tryFallbackGum\<close> install a helper after
  \<open>await helper.init()\<close> has returned true. \<open>detectionGuard\<close> collects the tests the code
  makes on the provider before it installs each helper. The function runs once, from the
  constructor; it starts with \<open>this.captureHelper = null\<close>, tries WebARViewer first and
  returns after the first helper it installs, so no helper is installed at any of the four
  places.
\<close>

fun detectionGuard :: "api \<Rightarrow> provider \<Rightarrow> bool" where
  "detectionGuard WebARViewer s = (xrSession s \<and> captureHelper s = None)"
| "detectionGuard WebXRRawCamera s =
     (xrSession s \<and> gl s \<and> captureHelper s = None \<and> xrRefSpace s)"
| "detectionGuard ARHeadsetGUM s = (captureHelper s = None)"
| "detectionGuard WebARGUM s = (captureHelper s = None)"

definition helperInitSucceeded :: "api \<Rightarrow> provider \<Rightarrow> provider" where
  "helperInitSucceeded a s =
     (if \<not> detectionGuard a s then s
      else
        let s1 = s\<lparr>activeApiName := Some a,
                   captureHelper := Some \<lparr>api = a, isStreaming = False\<rparr>\<rparr>
        in if processors s1 \<noteq> [] \<and> \<not> isCapturing s1 then startCaptureLoop s1 else s1)"

subsection \<open>Distribution\<close>

text \<open>
  The loop \<open>for (const processor of this.processors)\<close>: one call of \<open>processImage\<close> per
  processor, each returning a fresh promise. \<open>processImage\<close> is taken to return a promise,
  as \<open>registerProcessor\<close> asks for and as the \<open>async\<close> functions of both processors of
  the repository do; it does not throw before it returns.
\<close>

fun invokeAll :: "nat list \<Rightarrow> nat \<Rightarrow> nat \<Rightarrow> nat \<Rightarrow> invocation list" where
  "invokeAll [] q i m = []"
| "invokeAll (p # ps) q i m =
     \<lparr>promise = q, target = p, imageArg = i, metadataArg = m\<rparr> # invokeAll ps (Suc q) i m"

text \<open>
  \<open>_distributeFrameToProcessors\<close>. Every promise is wrapped by \<open>.catch\<close>, so
  \<open>Promise.all\<close> waits for all of them; its \<open>finally\<close> callback runs once none is left,
  at once when there is no processor.
\<close>

definition distributeFrameToProcessors :: "nat option \<Rightarrow> nat option \<Rightarrow> provider \<Rightarrow> provider" where
  "distributeFrameToProcessors img md s =
     (case img of
        None \<Rightarrow> s\<lparr>isPipelineBusy := False\<rparr>
      | Some i \<Rightarrow>
         (case md of
            None \<Rightarrow> s\<lparr>isPipelineBusy := False\<rparr>
          | Some m \<Rightarrow>
              let calls = invokeAll (processors s) (nextPromise s) i m
              in if calls = []
                 then s\<lparr>isPipelineBusy := False\<rparr>
                 else s\<lparr>invocations := invocations s @ calls,
                        nextPromise := nextPromise s + length calls,
                        rounds := rounds s @ [map promise calls]\<rparr>))"

text \<open>\<open>distributeFrameData\<close>, the entry point of the helpers that push frames.\<close>

definition distributeFrameData :: "frameData option \<Rightarrow> provider \<Rightarrow> provider" where
  "distributeFrameData fd s =
     (if \<not> isCapturing s then s
      else if processors s = [] then s
      else if isPipelineBusy s then s
      else (case fd of
              None \<Rightarrow> s
            | Some f \<Rightarrow>
                if imageData f = None \<or> metadata f = None then s
                else distributeFrameToProcessors (imageData f) (metadata f)
                       (s\<lparr>isPipelineBusy := True\<rparr>)))"

text \<open>
  A promise returned by \<open>processImage\<close> settles. The \<open>.catch\<close> handler logs a rejection
  and returns null; a round whose last promise has settled runs
  \<open>finally(() => { this.isPipelineBusy = false; })\<close>.
\<close>

definition promiseSettled :: "nat \<Rightarrow> settlement \<Rightarrow> provider \<Rightarrow> provider" where
  "promiseSettled q out s =
     (let waiting = (\<exists>r \<in> set (rounds s). q \<in> set r);
          lg = (case out of
                  Fulfilled \<Rightarrow> errorLog s
                | Rejected e \<Rightarrow>
                    if waiting then errorLog s @ [''Error in a processor: '' @ e] else errorLog s);
          rs = map (removeAll q) (rounds s)
      in s\<lparr>errorLog := lg,
            rounds := filter (\<lambda>r. r \<noteq> []) rs,
            isPipelineBusy := (if [] \<in> set rs then False else isPipelineBusy s)\<rparr>)"

fun settleAll :: "(nat \<times> settlement) list \<Rightarrow> provider \<Rightarrow> provider" where
  "settleAll [] s = s"
| "settleAll ((q, out) # evs) s = settleAll evs (promiseSettled q out s)"

subsection \<open>The tick-pulled loop\<close>

text \<open>
  \<open>_onXRFrame\<close>, the callback of \<open>xrSession.requestAnimationFrame\<close>. The helper's
  \<open>getFrameData\<close> has no suspension point of its own, so the code after
  \<open>await this.captureHelper.getFrameData(time, frame)\<close> runs before any other callback
  of the event loop; the callback is one step, and what \<open>getFrameData\<close> did is its
  argument.
\<close>

datatype acquired = GetFrameDataThrows string | NoFrame | Frame frameData

definition onXRFrame :: "acquired \<Rightarrow> provider \<Rightarrow> provider" where
  "onXRFrame acq s =
     (case captureHelper s of
        None \<Rightarrow> s\<lparr>isCapturing := False\<rparr>
      | Some h \<Rightarrow>
          if \<not> isCapturing s \<or> \<not> xrSession s \<or> \<not> usesXRFrame (api h)
          then s\<lparr>isCapturing := False\<rparr>
          else
            let s1 = s\<lparr>xrFrameRequests := Suc (xrFrameRequests s)\<rparr>
            in if processors s1 = [] \<or> isPipelineBusy s1 then s1
               else (case acq of
                       GetFrameDataThrows e \<Rightarrow>
                         s1\<lparr>errorLog := errorLog s1 @ [''Error in getFrameData: '' @ e]\<rparr>
                     | NoFrame \<Rightarrow> s1
                     | Frame f \<Rightarrow>
                         distributeFrameToProcessors (imageData f) (metadata f)
                           (s1\<lparr>isPipelineBusy := True\<rparr>)))"

subsection \<open>Reachable states\<close>

text \<open>
  The events of the event loop that reach the provider. An animation frame callback runs
  only for a request that is outstanding, and uses it up.
\<close>

datatype event =
    Register processor
  | Unregister processor
  | HelperInitSucceeded api
  | PushFrame "frameData option"
  | XRFrame acquired
  | PromiseSettled nat settlement

fun step :: "event \<Rightarrow> provider \<Rightarrow> provider" where
  "step (Register p) s = registerProcessor p s"
| "step (Unregister p) s = unregisterProcessor p s"
| "step (HelperInitSucceeded a) s = helperInitSucceeded a s"
| "step (PushFrame fd) s = distributeFrameData fd s"
| "step (XRFrame acq) s =
     (if xrFrameRequests s = 0 then s
      else onXRFrame acq (s\<lparr>xrFrameRequests := xrFrameRequests s - 1\<rparr>))"
| "step (PromiseSettled q out) s = promiseSettled q out s"

fun run :: "event list \<Rightarrow> provider \<Rightarrow> provider" where
  "run [] s = s"
| "run (e # es) s = run es (step e s)"

inductive reachable :: "provider \<Rightarrow> bool" where
  reach_init: "reachable (newProvider session glContext refSpace)"
| reach_step: "reachable s \<Longrightarrow> reachable (step e s)"

subsection \<open>Invariants and a sample run\<close>

text \<open>
  \<open>capturing_inv\<close>: the capture flag agrees with the processor set and the capture
  source; a helper driven by XR frames was installed with a session, and only with such
  a helper is an animation frame requested; the processor set has no duplicates.
  \<open>flight_inv\<close>: at most one round is unsettled, and then the pipeline is busy.
\<close>

definition capturing_inv :: "provider \<Rightarrow> bool" where
  "capturing_inv s =
     ((isCapturing s \<longleftrightarrow> processors s \<noteq> [] \<and> captureHelper s \<noteq> None) \<and>
      (case captureHelper s of
         None \<Rightarrow> xrFrameRequests s = 0
       | Some h \<Rightarrow> if usesXRFrame (api h) then xrSession s else xrFrameRequests s = 0) \<and>
      distinct (processors s))"

definition flight_inv :: "provider \<Rightarrow> bool" where
  "flight_inv s =
     (length (rounds s) \<le> 1 \<and> [] \<notin> set (rounds s) \<and> (rounds s \<noteq> [] \<longrightarrow> isPipelineBusy s))"

definition demo :: provider where
  "demo = run [HelperInitSucceeded WebARGUM,
               Register \<lparr>pid = 1, processImageIsFunction = True\<rparr>,
               Register \<lparr>pid = 2, processImageIsFunction = True\<rparr>]
            (newProvider False False False)"

definition demo0 :: provider where
  "demo0 = run [HelperInitSucceeded WebARGUM] (newProvider False False False)"

section \<open>JavaScript numbers\<close>

text \<open>
  A JavaScript number is an IEEE 754 double: a finite value, an infinity or NaN. Finite
  values are kept as rationals, and every arithmetic operation rounds its exact result to
  the nearest double, ties to even (\<open>fl\<close>), with the subnormal range below \<open>2^-1022\<close> and
  overflow to infinity from \<open>2^1024\<close>. The sign of zero is not kept; no operation modelled
  here depends on it.
\<close>

datatype jsnum = Finite rat | PosInfinity | NegInfinity | NaN

function bitlen :: "int \<Rightarrow> int" where
  "bitlen n = (if n \<le> 0 then 0 else 1 + bitlen (n div 2))"
  by pat_completeness auto
termination
  by (relation "measure nat") auto

declare bitlen.simps [simp del]

definition pow2 :: "int \<Rightarrow> rat" where
  "pow2 k = (if 0 \<le> k then of_int (2 ^ nat k) else 1 / of_int (2 ^ nat (- k)))"

text \<open>For \<open>x > 0\<close>, the \<open>e\<close> with \<open>2^e \<le> x < 2^(e+1)\<close>.\<close>

definition exponent :: "rat \<Rightarrow> int" where
  "exponent x =
     (case quotient_of x of (a, b) \<Rightarrow>
        let k = bitlen a - bitlen b
        in if pow2 k \<le> x then k else k - 1)"

definition round_half_even :: "rat \<Rightarrow> int" where
  "round_half_even x =
     (let f = \<lfloor>x\<rfloor>; d = x - of_int f
      in if d < 1 / 2 then f else if 1 / 2 < d then f + 1 else if even f then f else f + 1)"

definition fl :: "rat \<Rightarrow> rat" where
  "fl x =
     (if x = 0 then 0
      else let m = \<bar>x\<bar>; q = pow2 (max (exponent m - 52) (- 1074))
           in sgn x * of_int (round_half_even (m / q)) * q)"

definition js_round :: "rat \<Rightarrow> jsnum" where
  "js_round x =
     (let y = fl x
      in if of_int (2 ^ 1024) \<le> y then PosInfinity
         else if y \<le> - of_int (2 ^ 1024) then NegInfinity
         else Finite y)"

text \<open>A decimal literal such as \<open>0.299\<close> denotes the double nearest to it.\<close>

definition js_literal :: "rat \<Rightarrow> jsnum" where
  "js_literal x = js_round x"

fun js_sign :: "jsnum \<Rightarrow> int" where
  "js_sign (Finite x) = (if 0 < x then 1 else if x < 0 then - 1 else 0)"
| "js_sign PosInfinity = 1"
| "js_sign NegInfinity = - 1"
| "js_sign NaN = 0"

fun js_mul :: "jsnum \<Rightarrow> jsnum \<Rightarrow> jsnum" where
  "js_mul NaN b = NaN"
| "js_mul a NaN = NaN"
| "js_mul (Finite x) (Finite y) = js_round (x * y)"
| "js_mul a b =
     (if js_sign a * js_sign b = 0 then NaN
      else if 0 < js_sign a * js_sign b then PosInfinity else NegInfinity)"

fun js_add :: "jsnum \<Rightarrow> jsnum \<Rightarrow> jsnum" where
  "js_add NaN b = NaN"
| "js_add a NaN = NaN"
| "js_add (Finite x) (Finite y) = js_round (x + y)"
| "js_add (Finite x) b = b"
| "js_add a (Finite y) = a"
| "js_add a b = (if a = b then a else NaN)"

subsection \<open>parseFloat\<close>

text \<open>
  \<open>parseFloat(v)\<close> converts its argument to a string, skips leading white space and reads
  the longest prefix that is a decimal literal (\<open>StrDecimalLiteral\<close>): an optional sign,
  then \<open>Infinity\<close>, or digits with an optional fraction and an optional exponent, at least
  one digit before the exponent. Without such a prefix the result is NaN; otherwise it is
  the double nearest to the value of the literal. The function takes the string
  conversion of the argument; strings are over the code units below 256.
\<close>

definition isStrWhiteSpaceChar :: "char \<Rightarrow> bool" where
  "isStrWhiteSpaceChar c =
     (c \<in> set [CHR 0x09, CHR 0x0A, CHR 0x0B, CHR 0x0C, CHR 0x0D, CHR 0x20, CHR 0xA0])"

definition isDecimalDigit :: "char \<Rightarrow> bool" where
  "isDecimalDigit c = (c \<in> set ''0123456789'')"

definition digitValue :: "char \<Rightarrow> nat" where
  "digitValue c = of_char c - 48"

definition decimalValue :: "string \<Rightarrow> nat" where
  "decimalValue ds = foldl (\<lambda>n c. 10 * n + digitValue c) 0 ds"

definition pow10 :: "int \<Rightarrow> rat" where
  "pow10 k = (if 0 \<le> k then of_int (10 ^ nat k) else 1 / of_int (10 ^ nat (- k)))"

text \<open>\<open>SignedInteger\<close> at the start of a string, if there is one.\<close>

definition unsignedInteger :: "string \<Rightarrow> int option" where
  "unsignedInteger cs =
     (let ds = takeWhile isDecimalDigit cs
      in if ds = [] then None else Some (int (decimalValue ds)))"

definition signedInteger :: "string \<Rightarrow> int option" where
  "signedInteger cs =
     (case cs of
        [] \<Rightarrow> None
      | c # rest \<Rightarrow>
          if c = CHR ''+'' then unsignedInteger rest
          else if c = CHR ''-'' then map_option uminus (unsignedInteger rest)
          else unsignedInteger cs)"

text \<open>The exponent of an \<open>ExponentPart\<close> at the start of a string; 0 when there is none.\<close>

definition exponentPart :: "string \<Rightarrow> int" where
  "exponentPart cs =
     (case cs of
        [] \<Rightarrow> 0
      | c # rest \<Rightarrow>
          if c = CHR ''e'' \<or> c = CHR ''E''
          then (case signedInteger rest of None \<Rightarrow> 0 | Some n \<Rightarrow> n)
          else 0)"

text \<open>
  The value of the longest prefix of the forms \<open>digits\<close>, \<open>digits.\<close>, \<open>digits.digits\<close>
  and \<open>.digits\<close>, each with an optional exponent.
\<close>

definition strUnsignedDecimalLiteral :: "string \<Rightarrow> rat option" where
  "strUnsignedDecimalLiteral cs =
     (let intDigits = takeWhile isDecimalDigit cs;
          afterInt = dropWhile isDecimalDigit cs;
          hasPoint = (afterInt \<noteq> [] \<and> hd afterInt = CHR ''.'');
          fracDigits = (if hasPoint then takeWhile isDecimalDigit (tl afterInt) else []);
          afterFrac = (if hasPoint then dropWhile isDecimalDigit (tl afterInt) else afterInt)
      in if intDigits = [] \<and> fracDigits = [] then None
         else Some ((of_nat (decimalValue intDigits) +
                     of_nat (decimalValue fracDigits) / of_nat (10 ^ length fracDigits)) *
                    pow10 (exponentPart afterFrac)))"

definition parseFloat :: "string \<Rightarrow> jsnum" where
  "parseFloat inputString =
     (let trimmed = dropWhile isStrWhiteSpaceChar inputString;
          negative = (trimmed \<noteq> [] \<and> hd trimmed = CHR ''-'');
          unsignedPart =
            (if trimmed \<noteq> [] \<and> (hd trimmed = CHR ''-'' \<or> hd trimmed = CHR ''+'')
             then tl trimmed else trimmed)
      in if take 8 unsignedPart = ''Infinity''
         then (if negative then NegInfinity else PosInfinity)
         else (case strUnsignedDecimalLiteral unsignedPart of
                 None \<Rightarrow> NaN
               | Some mv \<Rightarrow> js_round (if negative then - mv else mv)))"

subsection \<open>Arithmetic used by the processors\<close>

text \<open>\<open>x / 1000.0\<close>.\<close>

fun divideBy1000 :: "jsnum \<Rightarrow> jsnum" where
  "divideBy1000 (Finite x) = js_round (x / 1000)"
| "divideBy1000 PosInfinity = PosInfinity"
| "divideBy1000 NegInfinity = NegInfinity"
| "divideBy1000 NaN = NaN"

fun isNaN :: "jsnum \<Rightarrow> bool" where
  "isNaN NaN = True"
| "isNaN x = False"

text \<open>\<open>x <= 0\<close>, \<open>x > 0\<close>; a comparison with NaN is false.\<close>

fun js_le_zero :: "jsnum \<Rightarrow> bool" where
  "js_le_zero (Finite x) = (x \<le> 0)"
| "js_le_zero NegInfinity = True"
| "js_le_zero PosInfinity = False"
| "js_le_zero NaN = False"

fun js_gt_zero :: "jsnum \<Rightarrow> bool" where
  "js_gt_zero (Finite x) = (0 < x)"
| "js_gt_zero PosInfinity = True"
| "js_gt_zero NegInfinity = False"
| "js_gt_zero NaN = False"

text \<open>
  Storing a number in a \<open>Uint8Array\<close> (ToUint8): NaN and the infinities become 0, a
  finite value is truncated towards zero and taken modulo 256.
\<close>

fun toUint8 :: "jsnum \<Rightarrow> 8 word" where
  "toUint8 (Finite x) = word_of_int (if 0 \<le> x then \<lfloor>x\<rfloor> else \<lceil>x\<rceil>)"
| "toUint8 x = 0"

text \<open>Reading element \<open>i\<close> of a byte array as a number; out of range it is undefined, NaN in arithmetic.\<close>

definition elem :: "8 word list \<Rightarrow> nat \<Rightarrow> jsnum" where
  "elem buf i = (if i < length buf then Finite (of_nat (unat (buf ! i))) else NaN)"

text \<open>Writing element \<open>j\<close> of a \<open>Uint8Array\<close>; a write out of range is ignored.\<close>

definition typedStore :: "8 word list \<Rightarrow> nat \<Rightarrow> jsnum \<Rightarrow> 8 word list" where
  "typedStore gs j v = (if j < length gs then gs[j := toUint8 v] else gs)"

section \<open>AprilTagProcessor (src/systems/cv/cv-processors/apriltag-processor.js)\<close>

subsection \<open>Data\<close>

text \<open>
  \<open>CaptureImageData\<close> and \<open>CaptureMetadata\<close> as the processors read them. The canvas of a
  frame is given by what the 2D context does in the \<open>try\<close> block of \<open>processImage\<close>: it
  returns the pixels of the filtered image (\<open>getImageData(...).data\<close>), or it throws.
\<close>

datatype canvas = CanvasPixels "8 word list" | CanvasThrows

record captureImageData =
  buffer :: "8 word list option"
  canvas :: "canvas option"
  width :: nat
  height :: nat
  format :: string

record captureMetadata =
  timestamp :: nat
  cameraIntrinsics :: "nat option"
  viewTransformMatrix :: "nat option"

text \<open>Messages posted to the worker, and messages received from it.\<close>

datatype worker_msg =
    INIT
  | PROCESS_GSFRAME "8 word list" nat nat nat nat
  | KNOWN_MARKER_ADD string jsnum
  | KNOWN_MARKER_DEL string

datatype worker_reply =
    FRAME_RESULTS "nat list option" nat
  | INIT_DONE
  | ERROR "string option"
  | Unhandled

record workerEvent =
  reply :: worker_reply
  returnedPixels :: "8 word list option"

text \<open>
  The processor. \<open>knownMarkers\<close> is a \<open>Map\<close>, kept as an association list in insertion
  order. \<open>posted\<close> are the messages given to \<open>cvWorker.postMessage\<close>, \<open>dispatched\<close> the
  detection events, \<open>tagErrors\<close> the lines of \<open>console.error\<close>.
\<close>

record aprilTagProcessor =
  cvWorker :: bool
  cvWorkerReady :: bool
  grayscaleBuffer :: "8 word list option"
  knownMarkers :: "(string \<times> jsnum) list"
  posted :: "worker_msg list"
  dispatched :: "(nat list \<times> nat) list"
  tagErrors :: "string list"

definition newAprilTagProcessor :: aprilTagProcessor where
  "newAprilTagProcessor =
     \<lparr>cvWorker = True, cvWorkerReady = False, grayscaleBuffer = None, knownMarkers = [],
      posted = [INIT], dispatched = [], tagErrors = []\<rparr>"

subsection \<open>Known markers\<close>

definition sendMarkerToWorker :: "string \<Rightarrow> jsnum \<Rightarrow> aprilTagProcessor \<Rightarrow> aprilTagProcessor" where
  "sendMarkerToWorker markerId sizeInMeters s =
     (if \<not> cvWorker s \<or> \<not> cvWorkerReady s then s
      else s\<lparr>posted := posted s @ [KNOWN_MARKER_ADD markerId sizeInMeters]\<rparr>)"

text \<open>
  \<open>addKnownMarker(markerId, sizeInMillimeters)\<close>. The function uses its arguments only
  through their string conversions: \<open>String(markerId)\<close>, and the string that
  \<open>parseFloat\<close> and the template literal of the error line make of \<open>sizeInMillimeters\<close>
  (\<open>100\<close> for the number 100). The arguments of the model are these two strings.
\<close>

definition addKnownMarker :: "string \<Rightarrow> string \<Rightarrow> aprilTagProcessor \<Rightarrow> aprilTagProcessor" where
  "addKnownMarker markerIdStr sizeInMillimeters s =
     (let sizeInMeters = divideBy1000 (parseFloat sizeInMillimeters)
      in if isNaN sizeInMeters \<or> js_le_zero sizeInMeters
         then s\<lparr>tagErrors := tagErrors s @
                  [''AprilTagProcessor: Invalid size for marker '' @ markerIdStr @ '': '' @
                   sizeInMillimeters @ ''mm. Must be positive.'']\<rparr>
         else
           let s1 = s\<lparr>knownMarkers := AList.update markerIdStr sizeInMeters (knownMarkers s)\<rparr>
           in if cvWorkerReady s1 then sendMarkerToWorker markerIdStr sizeInMeters s1 else s1)"

text \<open>
  \<open>removeKnownMarker\<close>; \<open>this.cvWorker.postMessage\<close> on a worker that is null throws a
  TypeError.
\<close>

definition removeKnownMarker :: "string \<Rightarrow> aprilTagProcessor \<Rightarrow> aprilTagProcessor" where
  "removeKnownMarker markerIdStr s =
     (let s1 = s\<lparr>knownMarkers := AList.delete markerIdStr (knownMarkers s)\<rparr>
      in if cvWorkerReady s1
         then (if cvWorker s1
               then s1\<lparr>posted := posted s1 @ [KNOWN_MARKER_DEL markerIdStr]\<rparr>
               else s1\<lparr>tagErrors := tagErrors s1 @ [''TypeError'']\<rparr>)
         else s1)"

text \<open>\<open>this.knownMarkers.forEach((size, id) => this._sendMarkerToWorker(id, size))\<close>.\<close>

fun replayMarkers :: "(string \<times> jsnum) list \<Rightarrow> aprilTagProcessor \<Rightarrow> aprilTagProcessor" where
  "replayMarkers [] s = s"
| "replayMarkers ((markerId, sizeInMeters) # ms) s =
     replayMarkers ms (sendMarkerToWorker markerId sizeInMeters s)"

definition handleCvWorkerMessage :: "workerEvent \<Rightarrow> aprilTagProcessor \<Rightarrow> aprilTagProcessor" where
  "handleCvWorkerMessage ev s =
     (let s0 = (case returnedPixels ev of
                  None \<Rightarrow> s
                | Some px \<Rightarrow> s\<lparr>grayscaleBuffer := Some px\<rparr>)
      in case reply ev of
           FRAME_RESULTS detections ts \<Rightarrow>
             s0\<lparr>dispatched := dispatched s0 @
                   [(case detections of None \<Rightarrow> [] | Some d \<Rightarrow> d, ts)]\<rparr>
         | INIT_DONE \<Rightarrow> replayMarkers (knownMarkers s0) (s0\<lparr>cvWorkerReady := True\<rparr>)
         | ERROR e \<Rightarrow>
             s0\<lparr>tagErrors := tagErrors s0 @
                   [''Error from CV Worker: '' @ (case e of None \<Rightarrow> ''Unknown error'' | Some m \<Rightarrow> m)]\<rparr>
         | Unhandled \<Rightarrow> s0)"

definition destroyAprilTag :: "aprilTagProcessor \<Rightarrow> aprilTagProcessor" where
  "destroyAprilTag s =
     (let s1 = (if cvWorker s then s\<lparr>cvWorker := False, cvWorkerReady := False\<rparr> else s)
      in s1\<lparr>grayscaleBuffer := None, knownMarkers := []\<rparr>)"

subsection \<open>Grayscale conversion\<close>

text \<open>
  Both conversion loops have the shape
  \<open>for (let i = 0, j = 0; i < data.length; i += 4, j++) this.grayscaleBuffer[j] = v\<close>;
  \<open>pixelValue data i\<close> is the value \<open>v\<close> stored for the pixel that starts at \<open>i\<close>.
\<close>

function grayLoop ::
  "(8 word list \<Rightarrow> nat \<Rightarrow> jsnum) \<Rightarrow> 8 word list \<Rightarrow> nat \<Rightarrow> nat \<Rightarrow> 8 word list \<Rightarrow> 8 word list" where
  "grayLoop pixelValue data i j gs =
     (if i < length data
      then grayLoop pixelValue data (i + 4) (j + 1) (typedStore gs j (pixelValue data i))
      else gs)"
  by pat_completeness auto
termination
  by (relation "measure (\<lambda>(pixelValue, data, i, j, gs). length data - i)") auto

declare grayLoop.simps [simp del]

text \<open>\<open>0.299 * buffer[i] + 0.587 * buffer[i + 1] + 0.114 * buffer[i + 2]\<close>.\<close>

definition weightedSum :: "jsnum \<Rightarrow> jsnum \<Rightarrow> jsnum \<Rightarrow> jsnum" where
  "weightedSum r g b =
     js_add (js_add (js_mul (js_literal (299 / 1000)) r) (js_mul (js_literal (587 / 1000)) g))
            (js_mul (js_literal (114 / 1000)) b)"

definition luminance :: "8 word list \<Rightarrow> nat \<Rightarrow> jsnum" where
  "luminance data i = weightedSum (elem data i) (elem data (i + 1)) (elem data (i + 2))"

text \<open>
  The weighted sum of the specification, in exact arithmetic, for the comparison with the
  byte that is stored.
\<close>

definition exactWeightedSum :: "8 word \<Rightarrow> 8 word \<Rightarrow> 8 word \<Rightarrow> rat" where
  "exactWeightedSum r g b =
     299 / 1000 * of_nat (unat r) + 587 / 1000 * of_nat (unat g) + 114 / 1000 * of_nat (unat b)"

definition softwareGrayscale :: "8 word list \<Rightarrow> 8 word list \<Rightarrow> 8 word list" where
  "softwareGrayscale data gs = grayLoop luminance data 0 0 gs"

text \<open>The canvas path copies the red channel of the filtered image.\<close>

definition canvasGrayscale :: "8 word list \<Rightarrow> 8 word list \<Rightarrow> 8 word list" where
  "canvasGrayscale filteredImageData gs = grayLoop elem filteredImageData 0 0 gs"

subsection \<open>processImage\<close>

datatype grayscale_path = CanvasFilter | SoftwareFallback | Software

datatype frame_result =
    WorkerNotReady
  | NoImageData
  | NoIntrinsics
  | NoFallbackBuffer
  | UnexpectedFormat
  | TypeErrorThrown
  | PostedFrame grayscale_path

text \<open>
  The end of \<open>processImage\<close>: the message for the worker, then
  \<open>this.grayscaleBuffer = null\<close>. \<open>this.cvWorker.postMessage\<close> throws when the worker is
  null.
\<close>

definition postFrame ::
  "grayscale_path \<Rightarrow> 8 word list \<Rightarrow> captureImageData \<Rightarrow> captureMetadata \<Rightarrow> nat \<Rightarrow>
   aprilTagProcessor \<Rightarrow> frame_result \<times> aprilTagProcessor" where
  "postFrame path gs img md intrinsics s =
     (if \<not> cvWorker s then (TypeErrorThrown, s)
      else
        (PostedFrame path,
         s\<lparr>posted := posted s @
                  [PROCESS_GSFRAME gs (width img) (height img) intrinsics (timestamp md)],
           grayscaleBuffer := None\<rparr>))"

definition aprilTag_processImage ::
  "captureImageData option \<Rightarrow> captureMetadata \<Rightarrow> aprilTagProcessor \<Rightarrow>
   frame_result \<times> aprilTagProcessor" where
  "aprilTag_processImage imageData' md s =
     (if \<not> cvWorkerReady s then (WorkerNotReady, s)
      else case imageData' of
        None \<Rightarrow> (NoImageData, s)
      | Some img \<Rightarrow>
          if buffer img = None \<and> canvas img = None then (NoImageData, s)
          else case cameraIntrinsics md of
            None \<Rightarrow> (NoIntrinsics, s)
          | Some intrinsics \<Rightarrow>
              let n = width img * height img;
                  gs = (case grayscaleBuffer s of
                          None \<Rightarrow> replicate n 0
                        | Some g \<Rightarrow> if length g \<noteq> n then replicate n 0 else g);
                  s1 = s\<lparr>grayscaleBuffer := Some gs\<rparr>
              in if canvas img \<noteq> None \<and> format img = ''RGBA'' then
                   (case canvas img of
                      Some (CanvasPixels filteredImageData) \<Rightarrow>
                        postFrame CanvasFilter (canvasGrayscale filteredImageData gs) img md intrinsics s1
                    | _ \<Rightarrow>
                        (case buffer img of
                           None \<Rightarrow> (NoFallbackBuffer, s1)
                         | Some data \<Rightarrow>
                             postFrame SoftwareFallback (softwareGrayscale data gs) img md intrinsics s1))
                 else if buffer img \<noteq> None \<and> format img = ''RGBA'' then
                   (case buffer img of
                      Some data \<Rightarrow> postFrame Software (softwareGrayscale data gs) img md intrinsics s1
                    | None \<Rightarrow> (UnexpectedFormat, s1))
                 else (UnexpectedFormat, s1))"

subsection \<open>Reachable states of the processor\<close>

datatype tag_event =
    AddKnownMarker string string
  | RemoveKnownMarker string
  | WorkerMessage workerEvent
  | ProcessImage "captureImageData option" captureMetadata
  | Destroy

fun tag_step :: "tag_event \<Rightarrow> aprilTagProcessor \<Rightarrow> aprilTagProcessor" where
  "tag_step (AddKnownMarker markerId sizeInMillimeters) s =
     addKnownMarker markerId sizeInMillimeters s"
| "tag_step (RemoveKnownMarker markerId) s = removeKnownMarker markerId s"
| "tag_step (WorkerMessage ev) s = handleCvWorkerMessage ev s"
| "tag_step (ProcessImage img md) s = snd (aprilTag_processImage img md s)"
| "tag_step Destroy s = destroyAprilTag s"

inductive tag_reachable :: "aprilTagProcessor \<Rightarrow> bool" where
  tag_init: "tag_reachable newAprilTagProcessor"
| tag_next: "tag_reachable s \<Longrightarrow> tag_reachable (tag_step e s)"

subsection \<open>Invariant of the processor\<close>

text \<open>
  \<open>addsMarker markerId m\<close>: \<open>m\<close> is a \<open>KNOWN_MARKER_ADD\<close> message for \<open>markerId\<close>.
  \<open>tag_inv\<close>: the keys of the map are distinct, and a processor whose worker is alive and
  not ready has posted nothing but \<open>INIT\<close>.
\<close>

fun addsMarker :: "string \<Rightarrow> worker_msg \<Rightarrow> bool" where
  "addsMarker markerId (KNOWN_MARKER_ADD i z) = (i = markerId)"
| "addsMarker markerId m = False"

definition tag_inv :: "aprilTagProcessor \<Rightarrow> bool" where
  "tag_inv s =
     (distinct (map fst (knownMarkers s)) \<and>
      (cvWorker s \<and> \<not> cvWorkerReady s \<longrightarrow> posted s = [INIT]))"

subsection \<open>A ready processor and a frame of two pixels\<close>

definition readyTag :: aprilTagProcessor where
  "readyTag =
     handleCvWorkerMessage \<lparr>reply = INIT_DONE, returnedPixels = None\<rparr> newAprilTagProcessor"

definition twoPixels :: captureImageData where
  "twoPixels =
     \<lparr>buffer = Some [1, 1, 1, 255, 255, 255, 255, 255], canvas = None, width = 2, height = 1,
      format = ''RGBA''\<rparr>"

section \<open>OpenVPSProcessor (src/systems/cv/cv-processors/openvps-processor.js)\<close>

subsection \<open>Data\<close>

text \<open>
  The fields of the processor and of its options that \<open>processImage\<close> reads and writes;
  times are milliseconds of \<open>Date.now()\<close>. \<open>processImage\<close> is an \<open>async\<close> function
  with two suspension points, \<open>await new Promise(... toBlob ...)\<close> and
  \<open>await this.mapServer.localize(blob, 'image')\<close>; a call that has passed the gate is kept
  in \<open>calls\<close> with the place where it is suspended and the metadata it was given.
  \<open>requests\<close> are the calls that have called \<open>localize\<close>, \<open>poseUpdates\<close> the calls of
  \<open>options.onPoseUpdate\<close>, \<open>vpsErrors\<close> the lines of \<open>console.error\<close>.
\<close>

datatype pose = NestedArray nat | FlatArray16 nat | InvalidPose nat

record localizeResponse =
  pose :: "pose option"
  serverConfidence :: jsnum

datatype localizeOutcome = LocalizeRejects string | LocalizeResolves "localizeResponse option"

datatype stage = AwaitingBlob | AwaitingResponse

record vpsCall =
  callId :: nat
  suspended :: stage
  callMetadata :: captureMetadata

record openVPS =
  interval :: int
  maxRetries :: int
  retryDelay :: int
  onPoseUpdate :: bool
  isEnabled :: bool
  mapServer :: bool
  isBusy :: bool
  lastSendTime :: int
  retryCount :: int
  calls :: "vpsCall list"
  nextCall :: nat
  requests :: "nat list"
  poseUpdates :: "(nat \<times> jsnum) list"
  vpsErrors :: "string list"

text \<open>
  The constructor, from the merged options and whether \<open>imageUrl\<close> is given (the
  \<open>MapServer\<close> is then created).
\<close>

definition newOpenVPS :: "int \<Rightarrow> int \<Rightarrow> int \<Rightarrow> bool \<Rightarrow> bool \<Rightarrow> openVPS" where
  "newOpenVPS interval' maxRetries' retryDelay' callback hasImageUrl =
     \<lparr>interval = interval', maxRetries = maxRetries', retryDelay = retryDelay',
      onPoseUpdate = callback, isEnabled = hasImageUrl, mapServer = hasImageUrl,
      isBusy = False, lastSendTime = 0, retryCount = 0, calls = [], nextCall = 0,
      requests = [], poseUpdates = [], vpsErrors = []\<rparr>"

text \<open>The defaults of \<open>DEFAULT_OPTIONS\<close>.\<close>

definition defaultOpenVPS :: openVPS where
  "defaultOpenVPS = newOpenVPS 5000 3 1000 True True"

subsection \<open>The end of an attempt\<close>

text \<open>
  The \<open>catch\<close> block followed by \<open>finally\<close>; \<open>now\<close> is the value of \<open>Date.now()\<close> read in
  the \<open>catch\<close> block.
\<close>

definition attemptFailed :: "nat \<Rightarrow> string \<Rightarrow> int \<Rightarrow> openVPS \<Rightarrow> openVPS" where
  "attemptFailed c message now s =
     (let n = retryCount s + 1
      in s\<lparr>vpsErrors := vpsErrors s @ [''Error during image processing or localization: '' @ message],
            retryCount := n,
            lastSendTime := (if n \<le> maxRetries s then now - interval s + retryDelay s else now),
            isBusy := False,
            calls := filter (\<lambda>k. callId k \<noteq> c) (calls s)\<rparr>)"

text \<open>The end of the \<open>try\<close> block, \<open>this.retryCount = 0\<close>, followed by \<open>finally\<close>.\<close>

definition attemptCompleted :: "nat \<Rightarrow> openVPS \<Rightarrow> openVPS" where
  "attemptCompleted c s =
     s\<lparr>retryCount := 0, isBusy := False, calls := filter (\<lambda>k. callId k \<noteq> c) (calls s)\<rparr>"

subsection \<open>processImage\<close>

text \<open>
  \<open>new ImageData(data, width, height)\<close> throws unless the data has \<open>4 * width * height\<close>
  bytes and is not empty.
\<close>

definition imageDataFits :: "captureImageData \<Rightarrow> 8 word list \<Rightarrow> bool" where
  "imageDataFits img data = (data \<noteq> [] \<and> length data = 4 * width img * height img)"

text \<open>
  From the call to the first suspension: the eligibility gate, then \<open>isBusy\<close> and
  \<open>lastSendTime\<close>, then the canvas. \<open>catchTime\<close> is what \<open>Date.now()\<close> returns in the
  \<open>catch\<close> block when the canvas code throws.
\<close>

definition eligible :: "int \<Rightarrow> openVPS \<Rightarrow> bool" where
  "eligible now s = (\<not> (now - lastSendTime s < interval s \<or> isBusy s))"

definition openVPS_processImage ::
  "int \<Rightarrow> int \<Rightarrow> captureImageData option \<Rightarrow> captureMetadata \<Rightarrow> openVPS \<Rightarrow> openVPS" where
  "openVPS_processImage now catchTime imageData' md s =
     (if \<not> isEnabled s \<or> \<not> mapServer s then s
      else case imageData' of
        None \<Rightarrow> s
      | Some img \<Rightarrow>
         (case buffer img of
            None \<Rightarrow> s
          | Some data \<Rightarrow>
              if format img \<noteq> ''RGBA'' then s
              else if now - lastSendTime s < interval s \<or> isBusy s then s
              else
                let s1 = s\<lparr>isBusy := True, lastSendTime := now\<rparr>
                in if \<not> imageDataFits img data
                   then attemptFailed (nextCall s1) ''ImageData'' catchTime s1
                   else s1\<lparr>calls := calls s1 @
                              [\<lparr>callId = nextCall s1, suspended = AwaitingBlob, callMetadata = md\<rparr>],
                            nextCall := Suc (nextCall s1)\<rparr>))"

text \<open>
  \<open>toBlob\<close> has called back: the checks of the blob and of the view matrix, then the call
  of \<open>this.mapServer.localize\<close>, which throws a TypeError when \<open>destroy\<close> has set
  \<open>mapServer\<close> to null in the meantime.
\<close>

definition blobReady :: "nat \<Rightarrow> bool \<Rightarrow> int \<Rightarrow> openVPS \<Rightarrow> openVPS" where
  "blobReady c blob catchTime s =
     (case find (\<lambda>k. callId k = c \<and> suspended k = AwaitingBlob) (calls s) of
        None \<Rightarrow> s
      | Some k \<Rightarrow>
          if \<not> blob then attemptFailed c ''Failed to convert canvas to Blob.'' catchTime s
          else if viewTransformMatrix (callMetadata k) = None
            then attemptFailed c ''Valid cameraViewMatrix (THREE.Matrix4) not found in metadata.'' catchTime s
          else if \<not> mapServer s then attemptFailed c ''TypeError'' catchTime s
          else s\<lparr>requests := requests s @ [c],
                  calls := map (\<lambda>k. if callId k = c then k\<lparr>suspended := AwaitingResponse\<rparr> else k)
                             (calls s)\<rparr>)"

text \<open>
  The promise of \<open>localize\<close> has settled. A response with a pose and a confidence above 0
  gives a pose update (or throws on a pose that is neither nested nor of 16 elements); any
  other response is only noted under \<open>options.debug\<close>. The callback is taken not to throw.
\<close>

definition localizeSettled :: "nat \<Rightarrow> localizeOutcome \<Rightarrow> int \<Rightarrow> openVPS \<Rightarrow> openVPS" where
  "localizeSettled c outcome catchTime s =
     (case find (\<lambda>k. callId k = c \<and> suspended k = AwaitingResponse) (calls s) of
        None \<Rightarrow> s
      | Some k \<Rightarrow>
         (case outcome of
            LocalizeRejects e \<Rightarrow> attemptFailed c e catchTime s
          | LocalizeResolves None \<Rightarrow> attemptCompleted c s
          | LocalizeResolves (Some r) \<Rightarrow>
             (case pose r of
                None \<Rightarrow> attemptCompleted c s
              | Some p \<Rightarrow>
                  if \<not> js_gt_zero (serverConfidence r) then attemptCompleted c s
                  else (case p of
                          InvalidPose x \<Rightarrow>
                            attemptFailed c ''Invalid pose format from server.'' catchTime
                              (s\<lparr>vpsErrors := vpsErrors s @ [''Invalid pose format from server response.'']\<rparr>)
                        | NestedArray x \<Rightarrow>
                            attemptCompleted c
                              (if onPoseUpdate s
                               then s\<lparr>poseUpdates := poseUpdates s @ [(x, serverConfidence r)]\<rparr>
                               else s)
                        | FlatArray16 x \<Rightarrow>
                            attemptCompleted c
                              (if onPoseUpdate s
                               then s\<lparr>poseUpdates := poseUpdates s @ [(x, serverConfidence r)]\<rparr>
                               else s)))))"

definition setEnabled :: "bool \<Rightarrow> openVPS \<Rightarrow> openVPS" where
  "setEnabled enabled s = s\<lparr>isEnabled := enabled\<rparr>"

definition destroyOpenVPS :: "openVPS \<Rightarrow> openVPS" where
  "destroyOpenVPS s = s\<lparr>isEnabled := False, mapServer := False\<rparr>"

subsection \<open>Reachable states of the processor\<close>

datatype vps_event =
    ProcessImageCalled int int "captureImageData option" captureMetadata
  | BlobReady nat bool int
  | LocalizeSettled nat localizeOutcome int
  | SetEnabled bool
  | DestroyVPS

fun vps_step :: "vps_event \<Rightarrow> openVPS \<Rightarrow> openVPS" where
  "vps_step (ProcessImageCalled now catchTime img md) s = openVPS_processImage now catchTime img md s"
| "vps_step (BlobReady c blob catchTime) s = blobReady c blob catchTime s"
| "vps_step (LocalizeSettled c outcome catchTime) s = localizeSettled c outcome catchTime s"
| "vps_step (SetEnabled enabled) s = setEnabled enabled s"
| "vps_step DestroyVPS s = destroyOpenVPS s"

fun vps_run :: "vps_event list \<Rightarrow> openVPS \<Rightarrow> openVPS" where
  "vps_run [] s = s"
| "vps_run (e # es) s = vps_run es (vps_step e s)"

inductive vps_reachable :: "openVPS \<Rightarrow> bool" where
  vps_init: "vps_reachable (newOpenVPS interval' maxRetries' retryDelay' callback hasImageUrl)"
| vps_next: "vps_reachable s \<Longrightarrow> vps_reachable (vps_step e s)"

text \<open>
  \<open>vps_inv\<close>: at most one call is in flight, and \<open>isBusy\<close> holds exactly while one is.
  \<open>outstanding\<close>: the calls that wait for the answer of \<open>localize\<close>.
\<close>

definition outstanding :: "openVPS \<Rightarrow> vpsCall list" where
  "outstanding s = filter (\<lambda>k. suspended k = AwaitingResponse) (calls s)"

definition vps_inv :: "openVPS \<Rightarrow> bool" where
  "vps_inv s =
     (length (calls s) \<le> 1 \<and> (isBusy s \<longleftrightarrow> calls s \<noteq> []) \<and>
      (\<forall>k \<in> set (calls s). callId k < nextCall s))"

subsection \<open>Continuations\<close>

text \<open>\<open>isCompletion e\<close>: the event resumes a suspended call of \<open>processImage\<close>.\<close>

fun isCompletion :: "vps_event \<Rightarrow> bool" where
  "isCompletion (BlobReady c blob catchTime) = True"
| "isCompletion (LocalizeSettled c outcome catchTime) = True"
| "isCompletion e = False"

subsection \<open>Failing attempts\<close>

text \<open>
  \<open>attemptFails e s\<close>: the event \<open>e\<close> runs the \<open>catch\<close> block of \<open>processImage\<close> in state
  \<open>s\<close>, because a statement of the \<open>try\<close> block throws: \<open>new ImageData\<close> on a buffer
  of the wrong size, the missing blob, the missing view matrix, \<open>localize\<close> on a map
  server that is null, the rejection of \<open>localize\<close>, or a pose of an invalid format with a
  confidence above 0. \<open>catchTimeOf e\<close> is the value of \<open>Date.now()\<close> in the \<open>catch\<close>
  block.
\<close>

fun attemptFails :: "vps_event \<Rightarrow> openVPS \<Rightarrow> bool" where
  "attemptFails (ProcessImageCalled now catchTime imageData' md) s =
     (isEnabled s \<and> mapServer s \<and> \<not> (now - lastSendTime s < interval s \<or> isBusy s) \<and>
      (case imageData' of
         None \<Rightarrow> False
       | Some img \<Rightarrow>
          (case buffer img of
             None \<Rightarrow> False
           | Some data \<Rightarrow> format img = ''RGBA'' \<and> \<not> imageDataFits img data)))"
| "attemptFails (BlobReady c blob catchTime) s =
     (case find (\<lambda>k. callId k = c \<and> suspended k = AwaitingBlob) (calls s) of
        None \<Rightarrow> False
      | Some k \<Rightarrow> \<not> blob \<or> viewTransformMatrix (callMetadata k) = None \<or> \<not> mapServer s)"
| "attemptFails (LocalizeSettled c outcome catchTime) s =
     (case find (\<lambda>k. callId k = c \<and> suspended k = AwaitingResponse) (calls s) of
        None \<Rightarrow> False
      | Some k \<Rightarrow>
         (case outcome of
            LocalizeRejects e \<Rightarrow> True
          | LocalizeResolves None \<Rightarrow> False
          | LocalizeResolves (Some r) \<Rightarrow>
             (case pose r of
                None \<Rightarrow> False
              | Some p \<Rightarrow>
                 (case p of
                    InvalidPose x \<Rightarrow> js_gt_zero (serverConfidence r)
                  | NestedArray x \<Rightarrow> False
                  | FlatArray16 x \<Rightarrow> False))))"
| "attemptFails (SetEnabled enabled) s = False"
| "attemptFails DestroyVPS s = False"

fun catchTimeOf :: "vps_event \<Rightarrow> int" where
  "catchTimeOf (ProcessImageCalled now catchTime imageData' md) = catchTime"
| "catchTimeOf (BlobReady c blob catchTime) = catchTime"
| "catchTimeOf (LocalizeSettled c outcome catchTime) = catchTime"
| "catchTimeOf (SetEnabled enabled) = 0"
| "catchTimeOf DestroyVPS = 0"

subsection \<open>Sample frames and runs\<close>

text \<open>A frame of one pixel, and metadata with a view matrix.\<close>

definition rgbaFrame :: captureImageData where
  "rgbaFrame = \<lparr>buffer = Some [0, 0, 0, 255], canvas = None, width = 1, height = 1, format = ''RGBA''\<rparr>"

definition poseMetadata :: captureMetadata where
  "poseMetadata = \<lparr>timestamp = 1, cameraIntrinsics = None, viewTransformMatrix = Some 3\<rparr>"

text \<open>A processor with the default options whose first call has passed the gate.\<close>

definition firstCall :: openVPS where
  "firstCall = openVPS_processImage 10000 10000 (Some rgbaFrame) poseMetadata defaultOpenVPS"

text \<open>
  A processor with the default options whose first attempt was rejected by the service
  and whose retry is outstanding; a response with a pose and confidence 0.
\<close>

definition secondAttempt :: openVPS where
  "secondAttempt =
     vps_run [ProcessImageCalled 10000 10000 (Some rgbaFrame) poseMetadata,
              BlobReady 0 True 10050,
              LocalizeSettled 0 (LocalizeRejects ''network'') 10100,
              ProcessImageCalled 11100 11100 (Some rgbaFrame) poseMetadata,
              BlobReady 1 True 11150]
       defaultOpenVPS"

definition zeroConfidence :: localizeOutcome where
  "zeroConfidence =
     LocalizeResolves (Some \<lparr>pose = Some (FlatArray16 7), serverConfidence = Finite 0\<rparr>)"

text \<open>A processor with \<open>maxRetries = 2\<close> whose first request, sent at 10000, is outstanding.\<close>

definition firstAttempt :: openVPS where
  "firstAttempt =
     vps_run [ProcessImageCalled 10000 10000 (Some rgbaFrame) poseMetadata,
              BlobReady 0 True 10050]
       (newOpenVPS 5000 2 1000 True True)"

text \<open>
  A processor with \<open>maxRetries = 2\<close> whose first two attempts were rejected by the
  service and whose third request is outstanding.
\<close>

definition thirdAttempt :: openVPS where
  "thirdAttempt =
     vps_run [ProcessImageCalled 10000 10000 (Some rgbaFrame) poseMetadata,
              BlobReady 0 True 10050,
              LocalizeSettled 0 (LocalizeRejects ''network'') 10100,
              ProcessImageCalled 11100 11100 (Some rgbaFrame) poseMetadata,
              BlobReady 1 True 11150,
              LocalizeSettled 1 (LocalizeRejects ''network'') 11200,
              ProcessImageCalled 12200 12200 (Some rgbaFrame) poseMetadata,
              BlobReady 2 True 12250]
       (newOpenVPS 5000 2 1000 True True)"

text \<open>
  A processor with \<open>retryDelay = 10000\<close> above \<open>interval = 5000\<close> whose first request,
  sent at 10000, is outstanding.
\<close>

definition slowRetry :: openVPS where
  "slowRetry =
     vps_run [ProcessImageCalled 10000 10000 (Some rgbaFrame) poseMetadata,
              BlobReady 0 True 10050]
       (newOpenVPS 5000 3 10000 True True)"

section \<open>Origin anchor persistence (src/systems/armarker/armarker.js)\<close>

text \<open>
  \<open>setOriginAnchor\<close> works on three stores: the fields of the system, the key
  \<open>originAnchor\<close> of \<open>window.localStorage\<close>, and the persistent anchors of the XR session.
  The session's \<open>persistentAnchors\<close> is the list of handles in the order the platform
  enumerates them, oldest first; \<open>deletePersistentAnchor\<close> removes a handle that is in the
  list and rejects otherwise or when the platform fails; \<open>requestPersistentHandle\<close> appends
  the new handle. The platform's answers in one call are the record \<open>platform\<close>. The body
  of the \<open>then\<close> callback is taken to run without another call of \<open>setOriginAnchor\<close> in
  between.
\<close>

definition MAX_PERSISTENT_ANCHORS :: nat where
  "MAX_PERSISTENT_ANCHORS = 7"

record anchor =
  anchorId :: nat
  requestPersistentHandle :: bool
  deletable :: bool

record platform =
  deleteOldFails :: bool
  deleteOldestFails :: bool
  newHandle :: "string option"

record armarkerSystem =
  webXRSession :: bool
  xrRefSpace_sys :: bool
  persistentAnchors :: "string list option"
  storedOriginAnchor :: "string option"
  originAnchor :: "anchor option"
  deletedAnchors :: "nat list"
  pendingOriginAnchor :: bool
  anchorLog :: "string list"

text \<open>
  \<open>try { await this.webXRSession.deletePersistentAnchor(uuid); } catch (e) { console.warn(...) }\<close>
  on the list of handles.
\<close>

definition deletePersistentAnchor ::
  "bool \<Rightarrow> string \<Rightarrow> string \<Rightarrow> string list \<times> string list \<Rightarrow> string list \<times> string list" where
  "deletePersistentAnchor fails uuid warning st =
     (case st of (handles, lg) \<Rightarrow>
        if fails \<or> uuid \<notin> set handles then (handles, lg @ [warning])
        else (remove1 uuid handles, lg))"

text \<open>The branch of the \<open>then\<close> callback that persists the new anchor.\<close>

definition persistOrigin :: "platform \<Rightarrow> string list \<Rightarrow> armarkerSystem \<Rightarrow> armarkerSystem" where
  "persistOrigin env handles s =
     (let st0 = (handles, anchorLog s);
          st1 = (case storedOriginAnchor s of
                   None \<Rightarrow> st0
                 | Some oldPersistAnchor \<Rightarrow>
                     if oldPersistAnchor = [] then st0
                     else deletePersistentAnchor (deleteOldFails env) oldPersistAnchor
                            ''Could not delete old persistent anchor'' st0);
          st2 = (if MAX_PERSISTENT_ANCHORS \<le> length (fst st1)
                 then (case fst st1 of
                         [] \<Rightarrow> st1
                       | oldestAnchor # rest \<Rightarrow>
                           if oldestAnchor = [] then st1
                           else deletePersistentAnchor (deleteOldestFails env) oldestAnchor
                                  ''Could not delete oldest persistent anchor'' st1)
                 else st1)
      in case newHandle env of
           None \<Rightarrow>
             s\<lparr>persistentAnchors := Some (fst st2),
               anchorLog := snd st2 @ [''Could not persist anchor'']\<rparr>
         | Some handle \<Rightarrow>
             s\<lparr>persistentAnchors := Some (fst st2 @ [handle]),
               storedOriginAnchor := Some handle,
               anchorLog := snd st2\<rparr>)"

text \<open>
  \<open>setOriginAnchor\<close>. The frame is \<open>None\<close> when no \<open>XRFrame\<close> is given; otherwise it holds
  what \<open>xrFrame.createAnchor\<close> resolved with, or \<open>None\<close> when it rejected.
\<close>

definition setOriginAnchor :: "platform \<Rightarrow> anchor option option \<Rightarrow> armarkerSystem \<Rightarrow> armarkerSystem" where
  "setOriginAnchor env xrFrame s =
     (if \<not> webXRSession s \<or> \<not> xrRefSpace_sys s then s
      else case xrFrame of
        None \<Rightarrow> s\<lparr>anchorLog := anchorLog s @ [''No XRFrame available, can't set origin anchor'']\<rparr>
      | Some None \<Rightarrow> s\<lparr>anchorLog := anchorLog s @ [''Error creating anchor in setOriginAnchor'']\<rparr>
      | Some (Some a) \<Rightarrow>
          let s1 = (case persistentAnchors s of
                      Some handles \<Rightarrow>
                        if requestPersistentHandle a then persistOrigin env handles s
                        else (case originAnchor s of
                                Some old \<Rightarrow>
                                  if deletable old
                                  then s\<lparr>deletedAnchors := deletedAnchors s @ [anchorId old]\<rparr> else s
                              | None \<Rightarrow> s)
                    | None \<Rightarrow>
                        (case originAnchor s of
                           Some old \<Rightarrow>
                             if deletable old
                             then s\<lparr>deletedAnchors := deletedAnchors s @ [anchorId old]\<rparr> else s
                         | None \<Rightarrow> s))
          in s1\<lparr>originAnchor := Some a, pendingOriginAnchor := False\<rparr>)"

subsection \<open>Sample stores\<close>

definition sevenAnchors :: "string list" where
  "sevenAnchors = [''a1'', ''a2'', ''a3'', ''a4'', ''a5'', ''a6'', ''a7'']"

definition reliable :: platform where
  "reliable = \<lparr>deleteOldFails = False, deleteOldestFails = False, newHandle = Some ''a8''\<rparr>"

definition newAnchor :: anchor where
  "newAnchor = \<lparr>anchorId = 8, requestPersistentHandle = True, deletable = True\<rparr>"

definition fullStore :: "string option \<Rightarrow> armarkerSystem" where
  "fullStore stored =
     \<lparr>webXRSession = True, xrRefSpace_sys = True, persistentAnchors = Some sevenAnchors,
      storedOriginAnchor = stored, originAnchor = None, deletedAnchors = [],
      pendingOriginAnchor = True, anchorLog = []\<rparr>"

section \<open>Properties of the provider\<close>

lemma set_add_nonempty: "set_add p ps \<noteq> []"
  by (auto simp: set_add_def)

lemma set_delete_Nil [simp]: "set_delete p [] = []"
  by (simp add: set_delete_def)

lemma distinct_set_add: "distinct ps \<Longrightarrow> distinct (set_add p ps)"
  by (simp add: set_add_def)

lemma distinct_set_delete: "distinct ps \<Longrightarrow> distinct (set_delete p ps)"
  by (simp add: set_delete_def distinct_removeAll)

lemma capturing_inv_init: "capturing_inv (newProvider a b c)"
  by (simp add: capturing_inv_def newProvider_def)

lemma capturing_inv_register: "capturing_inv s \<Longrightarrow> capturing_inv (registerProcessor p s)"
  by (auto simp: capturing_inv_def registerProcessor_def startCaptureLoop_def Let_def
        set_add_nonempty distinct_set_add startStreaming_def split: option.splits if_splits)

lemma capturing_inv_unregister: "capturing_inv s \<Longrightarrow> capturing_inv (unregisterProcessor p s)"
  by (auto simp: capturing_inv_def unregisterProcessor_def stopCaptureLoop_def Let_def
        distinct_set_delete stopStreaming_def split: option.splits if_splits)

lemma capturing_inv_helper: "capturing_inv s \<Longrightarrow> capturing_inv (helperInitSucceeded a s)"
  by (cases a) (auto simp: capturing_inv_def helperInitSucceeded_def startCaptureLoop_def Let_def
        startStreaming_def split: option.splits if_splits)

lemma invokeAll_Nil: "invokeAll ps q i m = [] \<longleftrightarrow> ps = []"
  by (cases ps) simp_all

lemma distribute_fields:
  "xrFrameRequests (distributeFrameToProcessors img md s) = xrFrameRequests s"
  "processors (distributeFrameToProcessors img md s) = processors s"
  "captureHelper (distributeFrameToProcessors img md s) = captureHelper s"
  "isCapturing (distributeFrameToProcessors img md s) = isCapturing s"
  "xrSession (distributeFrameToProcessors img md s) = xrSession s"
  by (simp_all add: distributeFrameToProcessors_def Let_def split: option.splits)

lemma push_fields:
  "xrFrameRequests (distributeFrameData fd s) = xrFrameRequests s"
  "processors (distributeFrameData fd s) = processors s"
  "captureHelper (distributeFrameData fd s) = captureHelper s"
  "isCapturing (distributeFrameData fd s) = isCapturing s"
  "xrSession (distributeFrameData fd s) = xrSession s"
  by (simp_all add: distributeFrameData_def distribute_fields split: option.splits)

lemma settled_fields:
  "xrFrameRequests (promiseSettled q out s) = xrFrameRequests s"
  "processors (promiseSettled q out s) = processors s"
  "captureHelper (promiseSettled q out s) = captureHelper s"
  "isCapturing (promiseSettled q out s) = isCapturing s"
  "xrSession (promiseSettled q out s) = xrSession s"
  by (simp_all add: promiseSettled_def Let_def)

lemma capturing_inv_xrframe:
  "capturing_inv s \<Longrightarrow> capturing_inv (step (XRFrame acq) s)"
  by (auto simp: capturing_inv_def onXRFrame_def Let_def distribute_fields
        split: option.splits acquired.splits if_splits)

lemma capturing_inv_step: "capturing_inv s \<Longrightarrow> capturing_inv (step e s)"
proof (cases e)
  case (PushFrame fd)
  assume "capturing_inv s"
  then show ?thesis unfolding PushFrame by (simp add: capturing_inv_def push_fields split: option.splits)
next
  case (XRFrame acq)
  assume "capturing_inv s"
  then show ?thesis unfolding XRFrame by (rule capturing_inv_xrframe)
next
  case (PromiseSettled q out)
  assume "capturing_inv s"
  then show ?thesis unfolding PromiseSettled by (simp add: capturing_inv_def settled_fields split: option.splits)
qed (simp_all add: capturing_inv_register capturing_inv_unregister capturing_inv_helper)

lemma reachable_capturing_inv: "reachable s \<Longrightarrow> capturing_inv s"
  by (induction rule: reachable.induct) (simp_all add: capturing_inv_init capturing_inv_step)

lemma flight_inv_init: "flight_inv (newProvider a b c)"
  by (simp add: flight_inv_def newProvider_def)

lemma register_flight:
  "rounds (registerProcessor p s) = rounds s"
  "isPipelineBusy (registerProcessor p s) = isPipelineBusy s"
  "invocations (registerProcessor p s) = invocations s"
  by (simp_all add: registerProcessor_def startCaptureLoop_def Let_def split: option.splits)

lemma unregister_flight:
  "rounds (unregisterProcessor p s) = rounds s"
  "isPipelineBusy (unregisterProcessor p s) = isPipelineBusy s"
  "invocations (unregisterProcessor p s) = invocations s"
  by (simp_all add: unregisterProcessor_def stopCaptureLoop_def Let_def split: option.splits)

lemma helper_flight:
  "rounds (helperInitSucceeded a s) = rounds s"
  "isPipelineBusy (helperInitSucceeded a s) = isPipelineBusy s"
  "invocations (helperInitSucceeded a s) = invocations s"
  by (simp_all add: helperInitSucceeded_def startCaptureLoop_def Let_def split: option.splits)

lemma flight_inv_push: "flight_inv s \<Longrightarrow> flight_inv (distributeFrameData fd s)"
  by (cases "rounds s")
     (auto simp: flight_inv_def distributeFrameData_def distributeFrameToProcessors_def
        Let_def invokeAll_Nil split: option.splits)

lemma flight_inv_settled: "flight_inv s \<Longrightarrow> flight_inv (promiseSettled q out s)"
  by (cases "rounds s") (auto simp: flight_inv_def promiseSettled_def Let_def)

lemma flight_inv_xrframe: "flight_inv s \<Longrightarrow> flight_inv (step (XRFrame acq) s)"
  by (cases "rounds s")
     (auto simp: flight_inv_def onXRFrame_def distributeFrameToProcessors_def
        Let_def invokeAll_Nil split: option.splits acquired.splits)

lemma flight_inv_step: "flight_inv s \<Longrightarrow> flight_inv (step e s)"
proof (cases e)
  case (XRFrame acq)
  assume "flight_inv s"
  then show ?thesis unfolding XRFrame by (rule flight_inv_xrframe)
qed (simp_all add: flight_inv_push flight_inv_settled,
     simp_all add: flight_inv_def register_flight unregister_flight helper_flight)

lemma reachable_flight_inv: "reachable s \<Longrightarrow> flight_inv s"
  by (induction rule: reachable.induct) (simp_all add: flight_inv_init flight_inv_step)

lemma push_dropped:
  "\<not> isCapturing s \<or> processors s = [] \<or> isPipelineBusy s \<or> fd = None \<or>
   (\<exists>f. fd = Some f \<and> (imageData f = None \<or> metadata f = None))
   \<Longrightarrow> distributeFrameData fd s = s"
  by (auto simp: distributeFrameData_def split: option.splits)

text \<open>
  Claim C1. In every state reachable by the events of \<open>step\<close>, a frame pushed through
  \<open>distributeFrameData\<close>
  leaves the provider exactly as it was (no call of \<open>processImage\<close> is added to
  \<open>invocations\<close>, no round is started, nothing is stored for later) when the provider is
  not capturing, or has no processor, or the pipeline is busy, or a round has promises that
  have not settled, or the frame or its image data or metadata is missing. A frame that
  passes the gate starts a round, and a second frame pushed while that round is unsettled
  changes nothing.
\<close>

theorem pushed_frame_dropped:
  assumes "reachable s"
  shows "(\<not> isCapturing s \<or> processors s = [] \<or> isPipelineBusy s \<or> rounds s \<noteq> [] \<or>
          fd = None \<or> (\<exists>f. fd = Some f \<and> (imageData f = None \<or> metadata f = None))
          \<longrightarrow> distributeFrameData fd s = s) \<and>
         (rounds (distributeFrameData fd s) \<noteq> [] \<longrightarrow>
            distributeFrameData fd2 (distributeFrameData fd s) = distributeFrameData fd s) \<and>
         (isCapturing s \<and> processors s \<noteq> [] \<and> \<not> isPipelineBusy s \<and>
          imageData f \<noteq> None \<and> metadata f \<noteq> None \<longrightarrow>
            rounds (distributeFrameData (Some f) s) \<noteq> [])"
proof -
  have busy: "rounds t \<noteq> [] \<Longrightarrow> isPipelineBusy t" if "reachable t" for t
    using reachable_flight_inv [OF that] by (simp add: flight_inv_def)
  have first: "distributeFrameData fd s = s"
    if "\<not> isCapturing s \<or> processors s = [] \<or> isPipelineBusy s \<or> rounds s \<noteq> [] \<or>
        fd = None \<or> (\<exists>f. fd = Some f \<and> (imageData f = None \<or> metadata f = None))"
    using that busy [OF assms] push_dropped [of s fd] by blast
  have "reachable (step (PushFrame fd) s)"
    using assms by (rule reachable.reach_step)
  then have r: "reachable (distributeFrameData fd s)" by simp
  have second: "distributeFrameData fd2 (distributeFrameData fd s) = distributeFrameData fd s"
    if "rounds (distributeFrameData fd s) \<noteq> []"
    using busy [OF r that] push_dropped [of "distributeFrameData fd s" fd2] by blast
  have third: "rounds (distributeFrameData (Some f) s) \<noteq> []"
    if "isCapturing s \<and> processors s \<noteq> [] \<and> \<not> isPipelineBusy s \<and>
        imageData f \<noteq> None \<and> metadata f \<noteq> None"
    using that
    by (auto simp: distributeFrameData_def distributeFrameToProcessors_def Let_def invokeAll_Nil)
  from first second third show ?thesis by blast
qed

lemma reachable_run: "reachable s \<Longrightarrow> reachable (run es s)"
  by (induction es arbitrary: s) (simp_all add: reachable.reach_step)

lemma demo_value:
  "demo = \<lparr>xrSession = False, gl = False, xrRefSpace = False, processors = [1, 2],
      activeApiName = Some WebARGUM,
      captureHelper = Some \<lparr>api = WebARGUM, isStreaming = True\<rparr>, isCapturing = True,
      isPipelineBusy = False, xrFrameRequests = 0, invocations = [], rounds = [],
      nextPromise = 0, errorLog = []\<rparr>"
  by (simp add: demo_def newProvider_def helperInitSucceeded_def registerProcessor_def
        startCaptureLoop_def startStreaming_def set_add_def Let_def)

lemma reachable_demo: "reachable demo"
  unfolding demo_def by (rule reachable_run) (rule reachable.reach_init)

theorem pushed_frame_dropped_witness:
  "reachable demo \<and>
   rounds (distributeFrameData (Some \<lparr>imageData = Some 7, metadata = Some 8\<rparr>) demo) = [[0, 1]] \<and>
   distributeFrameData (Some \<lparr>imageData = Some 9, metadata = Some 10\<rparr>)
     (distributeFrameData (Some \<lparr>imageData = Some 7, metadata = Some 8\<rparr>) demo) =
   distributeFrameData (Some \<lparr>imageData = Some 7, metadata = Some 8\<rparr>) demo \<and>
   distributeFrameData (Some \<lparr>imageData = None, metadata = Some 8\<rparr>) demo = demo"
proof -
  have r: "rounds (distributeFrameData (Some \<lparr>imageData = Some 7, metadata = Some 8\<rparr>) demo) = [[0, 1]]"
    by (simp add: demo_value distributeFrameData_def distributeFrameToProcessors_def Let_def)
  have a: "distributeFrameData (Some \<lparr>imageData = Some 9, metadata = Some 10\<rparr>)
     (distributeFrameData (Some \<lparr>imageData = Some 7, metadata = Some 8\<rparr>) demo) =
   distributeFrameData (Some \<lparr>imageData = Some 7, metadata = Some 8\<rparr>) demo"
    using pushed_frame_dropped [OF reachable_demo,
        of "Some \<lparr>imageData = Some 7, metadata = Some 8\<rparr>"
           "Some \<lparr>imageData = Some 9, metadata = Some 10\<rparr>"] r
    by simp
  have b: "distributeFrameData (Some \<lparr>imageData = None, metadata = Some 8\<rparr>) demo = demo"
    using pushed_frame_dropped [OF reachable_demo,
        of "Some \<lparr>imageData = None, metadata = Some 8\<rparr>"]
    by simp
  from reachable_demo r a b show ?thesis by blast
qed




lemma invokeAll_target: "map target (invokeAll ps q i m) = ps"
  by (induction ps arbitrary: q) simp_all

lemma invokeAll_payload: "c \<in> set (invokeAll ps q i m) \<Longrightarrow> imageArg c = i \<and> metadataArg c = m"
  by (induction ps arbitrary: q) auto

lemma invokeAll_promise: "map promise (invokeAll ps q i m) = [q ..< q + length ps]"
  by (induction ps arbitrary: q) (simp_all add: upt_rec)

lemma count_distinct:
  "distinct (map f xs) \<Longrightarrow> x \<in> set xs \<Longrightarrow> length (filter (\<lambda>c. f c = f x) xs) = 1"
proof (induction xs)
  case Nil
  then show ?case by simp
next
  case (Cons a xs)
  show ?case
  proof (cases "a = x")
    case True
    have "f x \<notin> f ` set xs"
      using Cons.prems(1) True by simp
    then have "\<forall>c \<in> set xs. f c \<noteq> f x" by (metis imageI)
    then have "filter (\<lambda>c. f c = f x) xs = []"
      by (simp add: filter_empty_conv)
    with True show ?thesis by simp
  next
    case False
    with Cons.prems have "x \<in> set xs" "f a \<noteq> f x" by auto
    with Cons show ?thesis by simp
  qed
qed

lemma invokeAll_once:
  assumes "distinct ps" "p \<in> set ps"
  shows "length (filter (\<lambda>c. target c = p) (invokeAll ps q i m)) = 1"
proof -
  have d: "distinct (map target (invokeAll ps q i m))"
    using assms(1) by (simp add: invokeAll_target)
  have "p \<in> set (map target (invokeAll ps q i m))"
    using assms(2) by (simp add: invokeAll_target)
  then obtain c where c: "c \<in> set (invokeAll ps q i m)" "target c = p" by auto
  from count_distinct [OF d c(1)] c(2) show ?thesis by simp
qed

lemma settled_rounds:
  "rounds (promiseSettled q out s) = filter (\<lambda>r. r \<noteq> []) (map (removeAll q) (rounds s))"
  by (simp add: promiseSettled_def Let_def)

lemma settled_busy:
  "isPipelineBusy (promiseSettled q out s) =
     (if [] \<in> set (map (removeAll q) (rounds s)) then False else isPipelineBusy s)"
  by (simp add: promiseSettled_def Let_def)

lemma settled_not_busy: "\<not> isPipelineBusy s \<Longrightarrow> \<not> isPipelineBusy (promiseSettled q out s)"
  by (simp add: settled_busy)

lemma settleAll_not_busy: "\<not> isPipelineBusy s \<Longrightarrow> \<not> isPipelineBusy (settleAll evs s)"
proof (induction evs arbitrary: s)
  case Nil
  then show ?case by simp
next
  case (Cons ev evs)
  obtain q out where ev: "ev = (q, out)" by (cases ev)
  from Cons.prems have "\<not> isPipelineBusy (promiseSettled q out s)"
    by (rule settled_not_busy)
  then show ?case unfolding ev by (simp add: Cons.IH)
qed

lemma settled_rounds_Nil: "rounds s = [] \<Longrightarrow> rounds (promiseSettled q out s) = []"
  by (simp add: settled_rounds)

lemma settleAll_single:
  "rounds s = [r] \<Longrightarrow> r \<noteq> [] \<Longrightarrow> isPipelineBusy s \<Longrightarrow>
   isPipelineBusy (settleAll evs s) \<longleftrightarrow> \<not> set r \<subseteq> fst ` set evs"
proof (induction evs arbitrary: s r)
  case Nil
  then show ?case by (cases r) simp_all
next
  case (Cons ev evs)
  obtain q out where ev: "ev = (q, out)" by (cases ev)
  let ?s1 = "promiseSettled q out s"
  let ?r1 = "removeAll q r"
  show ?case
  proof (cases "?r1 = []")
    case True
    then have "\<not> isPipelineBusy ?s1"
      using Cons.prems(1) by (simp add: settled_busy)
    then have "\<not> isPipelineBusy (settleAll evs ?s1)" by (rule settleAll_not_busy)
    moreover from True have "set r \<subseteq> {q}"
      by (metis Diff_eq_empty_iff set_empty set_removeAll)
    ultimately show ?thesis unfolding ev by auto
  next
    case False
    have r1: "rounds ?s1 = [?r1]"
      using Cons.prems(1) False by (simp add: settled_rounds)
    have b1: "isPipelineBusy ?s1"
      using Cons.prems(1,3) False by (simp add: settled_busy)
    have "isPipelineBusy (settleAll evs ?s1) \<longleftrightarrow> \<not> set ?r1 \<subseteq> fst ` set evs"
      by (rule Cons.IH [OF r1 False b1])
    moreover have "set ?r1 \<subseteq> fst ` set evs \<longleftrightarrow> set r \<subseteq> insert q (fst ` set evs)"
      by auto
    ultimately show ?thesis unfolding ev by simp
  qed
qed

lemma settled_invocations: "invocations (promiseSettled q out s) = invocations s"
  by (simp add: promiseSettled_def Let_def)

lemma settleAll_invocations: "invocations (settleAll evs s) = invocations s"
proof (induction evs arbitrary: s)
  case Nil
  then show ?case by simp
next
  case (Cons ev evs)
  obtain q out where ev: "ev = (q, out)" by (cases ev)
  show ?case unfolding ev by (simp add: Cons.IH settled_invocations)
qed

lemma rejected_logged:
  "q \<in> set r \<Longrightarrow> r \<in> set (rounds s) \<Longrightarrow>
   errorLog (promiseSettled q (Rejected e) s) = errorLog s @ [''Error in a processor: '' @ e]"
  by (auto simp: promiseSettled_def Let_def)

lemma fulfilled_log: "errorLog (promiseSettled q Fulfilled s) = errorLog s"
  by (simp add: promiseSettled_def Let_def)

lemma idle_rounds: "reachable s \<Longrightarrow> \<not> isPipelineBusy s \<Longrightarrow> rounds s = []"
  using reachable_flight_inv [of s] by (auto simp: flight_inv_def)

lemma round_started:
  assumes "rounds s = []" and "processors s \<noteq> []"
  shows "rounds (distributeFrameToProcessors (Some i) (Some m) (s\<lparr>isPipelineBusy := True\<rparr>)) =
           [map promise (invokeAll (processors s) (nextPromise s) i m)]"
    and "isPipelineBusy (distributeFrameToProcessors (Some i) (Some m) (s\<lparr>isPipelineBusy := True\<rparr>))"
  using assms by (simp_all add: distributeFrameToProcessors_def Let_def invokeAll_Nil)

text \<open>
  Claim C2. Both callers of \<open>_distributeFrameToProcessors\<close> set \<open>isPipelineBusy\<close> and call
  it in a state where the pipeline was idle. For a processor set of any size and a frame
  with image data and metadata, the round adds one call of \<open>processImage\<close> per registered
  processor, in order, each with that image data and metadata, so every registered
  processor is called exactly once, and settlements add no further call. Whatever way
  promises then settle (fulfilled or rejected, in any order, repeated, or promises of no
  round), \<open>isPipelineBusy\<close> is set exactly as long as some promise of the round has not
  settled: it stays set while one is missing and is cleared once all have settled, also
  when all of them reject; with no processor it is cleared at once. A rejection is written
  to the error log, a fulfilment is not. \<open>distributeFrameData\<close> with such a frame is this
  round when the provider is capturing and has a processor, and \<open>_onXRFrame\<close> with such a
  frame starts the same calls and keeps the flag in the same way.
\<close>

theorem distribution_round:
  assumes "reachable s" and "\<not> isPipelineBusy s"
  shows "\<exists>calls.
           invocations (distributeFrameToProcessors (Some i) (Some m) (s\<lparr>isPipelineBusy := True\<rparr>)) =
             invocations s @ calls \<and>
           map target calls = processors s \<and>
           (\<forall>p \<in> set (processors s). length (filter (\<lambda>c. target c = p) calls) = 1) \<and>
           (\<forall>c \<in> set calls. imageArg c = i \<and> metadataArg c = m) \<and>
           distinct (map promise calls) \<and>
           (\<forall>evs. isPipelineBusy
                    (settleAll evs
                       (distributeFrameToProcessors (Some i) (Some m) (s\<lparr>isPipelineBusy := True\<rparr>)))
                  \<longleftrightarrow> \<not> promise ` set calls \<subseteq> fst ` set evs) \<and>
           (\<forall>evs. invocations
                    (settleAll evs
                       (distributeFrameToProcessors (Some i) (Some m) (s\<lparr>isPipelineBusy := True\<rparr>))) =
                  invocations s @ calls) \<and>
           (\<forall>q \<in> promise ` set calls. \<forall>e.
              errorLog (promiseSettled q (Rejected e)
                 (distributeFrameToProcessors (Some i) (Some m) (s\<lparr>isPipelineBusy := True\<rparr>))) =
                errorLog s @ [''Error in a processor: '' @ e] \<and>
              errorLog (promiseSettled q Fulfilled
                 (distributeFrameToProcessors (Some i) (Some m) (s\<lparr>isPipelineBusy := True\<rparr>))) =
                errorLog s) \<and>
           (isCapturing s \<and> processors s \<noteq> [] \<longrightarrow>
              distributeFrameData (Some \<lparr>imageData = Some i, metadata = Some m\<rparr>) s =
                distributeFrameToProcessors (Some i) (Some m) (s\<lparr>isPipelineBusy := True\<rparr>)) \<and>
           (\<forall>h. captureHelper s = Some h \<and> usesXRFrame (api h) \<and> isCapturing s \<and>
                xrSession s \<and> processors s \<noteq> [] \<longrightarrow>
              invocations (onXRFrame (Frame \<lparr>imageData = Some i, metadata = Some m\<rparr>) s) =
                invocations s @ calls \<and>
              (\<forall>evs. isPipelineBusy
                       (settleAll evs
                          (onXRFrame (Frame \<lparr>imageData = Some i, metadata = Some m\<rparr>) s))
                     \<longleftrightarrow> \<not> promise ` set calls \<subseteq> fst ` set evs))"
proof -
  let ?calls = "invokeAll (processors s) (nextPromise s) i m"
  let ?s' = "distributeFrameToProcessors (Some i) (Some m) (s\<lparr>isPipelineBusy := True\<rparr>)"
  have idle: "rounds s = []" using assms by (rule idle_rounds)
  have dist: "distinct (processors s)"
    using reachable_capturing_inv [OF assms(1)] by (simp add: capturing_inv_def)
  have a: "invocations ?s' = invocations s @ ?calls"
    by (simp add: distributeFrameToProcessors_def Let_def)
  have b: "map target ?calls = processors s" by (rule invokeAll_target)
  have c: "\<forall>p \<in> set (processors s). length (filter (\<lambda>c. target c = p) ?calls) = 1"
    using dist by (simp add: invokeAll_once)
  have d: "\<forall>c \<in> set ?calls. imageArg c = i \<and> metadataArg c = m"
    using invokeAll_payload by blast
  have d': "distinct (map promise ?calls)" by (simp add: invokeAll_promise)
  have e: "isPipelineBusy (settleAll evs ?s') \<longleftrightarrow> \<not> promise ` set ?calls \<subseteq> fst ` set evs" for evs
  proof (cases "processors s = []")
    case True
    then have "\<not> isPipelineBusy ?s'" by (simp add: distributeFrameToProcessors_def Let_def)
    then have "\<not> isPipelineBusy (settleAll evs ?s')" by (rule settleAll_not_busy)
    with True show ?thesis by simp
  next
    case False
    have ne: "map promise ?calls \<noteq> []" using False by (simp add: invokeAll_Nil)
    note rs = round_started [OF idle False, of i m]
    from settleAll_single [OF rs(1) ne rs(2), of evs]
    show ?thesis by simp
  qed
  have f: "invocations (settleAll evs ?s') = invocations s @ ?calls" for evs
    by (simp add: settleAll_invocations a)
  have el: "errorLog ?s' = errorLog s"
    by (simp add: distributeFrameToProcessors_def Let_def)
  have g: "errorLog (promiseSettled q (Rejected x) ?s') = errorLog s @ [''Error in a processor: '' @ x] \<and>
           errorLog (promiseSettled q Fulfilled ?s') = errorLog s"
    if q: "q \<in> promise ` set ?calls" for q x
  proof -
    from q have ne: "processors s \<noteq> []" by (auto simp: invokeAll_Nil)
    have "map promise ?calls \<in> set (rounds ?s')"
      by (simp add: round_started(1) [OF idle ne])
    moreover from q have "q \<in> set (map promise ?calls)" by simp
    ultimately have "errorLog (promiseSettled q (Rejected x) ?s') = errorLog ?s' @ [''Error in a processor: '' @ x]"
      by (rule rejected_logged [rotated])
    then show ?thesis by (simp add: el fulfilled_log)
  qed
  have h: "distributeFrameData (Some \<lparr>imageData = Some i, metadata = Some m\<rparr>) s = ?s'"
    if "isCapturing s \<and> processors s \<noteq> []"
    using that assms(2) by (simp add: distributeFrameData_def)
  have x: "invocations (onXRFrame (Frame \<lparr>imageData = Some i, metadata = Some m\<rparr>) s) =
             invocations s @ ?calls \<and>
           (\<forall>evs. isPipelineBusy
                    (settleAll evs (onXRFrame (Frame \<lparr>imageData = Some i, metadata = Some m\<rparr>) s))
                  \<longleftrightarrow> \<not> promise ` set ?calls \<subseteq> fst ` set evs)"
    if c: "captureHelper s = Some k \<and> usesXRFrame (api k) \<and> isCapturing s \<and> xrSession s \<and>
           processors s \<noteq> []" for k
  proof -
    let ?s1 = "s\<lparr>xrFrameRequests := Suc (xrFrameRequests s)\<rparr>"
    let ?x = "distributeFrameToProcessors (Some i) (Some m) (?s1\<lparr>isPipelineBusy := True\<rparr>)"
    have ox: "onXRFrame (Frame \<lparr>imageData = Some i, metadata = Some m\<rparr>) s = ?x"
      using c assms(2) by (simp add: onXRFrame_def Let_def)
    have idle1: "rounds ?s1 = []" and ne1: "processors ?s1 \<noteq> []"
      using idle c by simp_all
    note rs = round_started [OF idle1 ne1, of i m]
    have ne: "map promise ?calls \<noteq> []" using c by (simp add: invokeAll_Nil)
    have r1: "rounds ?x = [map promise ?calls]" using rs(1) by simp
    have b1: "isPipelineBusy ?x" using rs(2) by simp
    have bx: "isPipelineBusy (settleAll evs ?x) \<longleftrightarrow> \<not> promise ` set ?calls \<subseteq> fst ` set evs" for evs
      using settleAll_single [OF r1 ne b1, of evs] by simp
    have ix: "invocations ?x = invocations s @ ?calls"
      by (simp add: distributeFrameToProcessors_def Let_def)
    show ?thesis
      unfolding ox by (intro conjI allI) (rule ix, rule bx)
  qed
  show ?thesis
    apply (intro exI [of _ ?calls] conjI)
    subgoal by (rule a)
    subgoal by (rule b)
    subgoal by (rule c)
    subgoal by (rule d)
    subgoal by (rule d')
    subgoal by (rule allI) (rule e)
    subgoal by (rule allI) (rule f)
    subgoal by (intro ballI allI) (erule g)
    subgoal by (rule impI) (erule h)
    subgoal by (intro allI impI) (erule x)
    done
qed

theorem distribution_round_witness:
  "reachable demo \<and> \<not> isPipelineBusy demo \<and>
   invocations (distributeFrameData (Some \<lparr>imageData = Some 7, metadata = Some 8\<rparr>) demo) =
     [\<lparr>promise = 0, target = 1, imageArg = 7, metadataArg = 8\<rparr>,
      \<lparr>promise = 1, target = 2, imageArg = 7, metadataArg = 8\<rparr>] \<and>
   isPipelineBusy (distributeFrameData (Some \<lparr>imageData = Some 7, metadata = Some 8\<rparr>) demo) \<and>
   isPipelineBusy (settleAll [(1, Rejected ''boom'')]
       (distributeFrameData (Some \<lparr>imageData = Some 7, metadata = Some 8\<rparr>) demo)) \<and>
   isPipelineBusy (settleAll [(1, Rejected ''boom''), (1, Fulfilled), (5, Fulfilled)]
       (distributeFrameData (Some \<lparr>imageData = Some 7, metadata = Some 8\<rparr>) demo)) \<and>
   \<not> isPipelineBusy (settleAll [(1, Rejected ''boom''), (0, Fulfilled)]
       (distributeFrameData (Some \<lparr>imageData = Some 7, metadata = Some 8\<rparr>) demo))"
proof -
  let ?s' = "distributeFrameToProcessors (Some 7) (Some 8) (demo\<lparr>isPipelineBusy := True\<rparr>)"
  let ?p = "distributeFrameData (Some \<lparr>imageData = Some 7, metadata = Some 8\<rparr>) demo"
  have n: "\<not> isPipelineBusy demo" and c: "isCapturing demo \<and> processors demo \<noteq> []"
    and inv0: "invocations demo = []"
    by (simp_all add: demo_value)
  from distribution_round [OF reachable_demo n, of 7 8] obtain calls where
    i: "invocations ?s' = invocations demo @ calls" and
    e: "\<forall>evs. isPipelineBusy (settleAll evs ?s') \<longleftrightarrow> \<not> promise ` set calls \<subseteq> fst ` set evs" and
    pi: "isCapturing demo \<and> processors demo \<noteq> [] \<longrightarrow> ?p = ?s'"
    by (elim exE conjE) (rule that; assumption)
  from pi c have p: "?p = ?s'" by (rule mp)
  have i': "invocations ?s' =
     [\<lparr>promise = 0, target = 1, imageArg = 7, metadataArg = 8\<rparr>,
      \<lparr>promise = 1, target = 2, imageArg = 7, metadataArg = 8\<rparr>]"
    by (simp add: demo_value distributeFrameToProcessors_def Let_def)
  with i inv0 have calls: "calls = [\<lparr>promise = 0, target = 1, imageArg = 7, metadataArg = 8\<rparr>,
      \<lparr>promise = 1, target = 2, imageArg = 7, metadataArg = 8\<rparr>]"
    by simp
  have b0: "isPipelineBusy (settleAll [] ?s')"
    unfolding e [rule_format] calls by simp
  have b1: "isPipelineBusy (settleAll [(1, Rejected ''boom'')] ?s')"
    unfolding e [rule_format] calls by simp
  have b2: "isPipelineBusy (settleAll [(1, Rejected ''boom''), (1, Fulfilled), (5, Fulfilled)] ?s')"
    unfolding e [rule_format] calls by simp
  have b3: "\<not> isPipelineBusy (settleAll [(1, Rejected ''boom''), (0, Fulfilled)] ?s')"
    unfolding e [rule_format] calls by simp
  from b0 have b0': "isPipelineBusy ?s'" by simp
  from reachable_demo n i' b0' b1 b2 b3 show ?thesis unfolding p by blast
qed

text \<open>
  Claim C3. In every state reachable by registrations, unregistrations, capture-source
  activations, pushed frames, animation frames and settlements, \<open>isCapturing\<close> holds
  exactly when a
  processor is registered and a capture helper is installed. Registering the first
  processor while a helper is installed moves the provider from not capturing to
  capturing; unregistering the last processor stops capturing, calls the helper's
  \<open>stopStreaming\<close> and keeps the helper; registering a valid processor twice, or
  unregistering twice, gives the same state as doing it once.
\<close>

theorem capturing_iff:
  assumes "reachable s"
  shows "(isCapturing s \<longleftrightarrow> processors s \<noteq> [] \<and> captureHelper s \<noteq> None) \<and>
         (processImageIsFunction p \<and> processors s = [] \<and> captureHelper s \<noteq> None \<longrightarrow>
            \<not> isCapturing s \<and> isCapturing (registerProcessor p s)) \<and>
         (processors s = [pid p] \<longrightarrow>
            \<not> isCapturing (unregisterProcessor p s) \<and>
            captureHelper (unregisterProcessor p s) = map_option stopStreaming (captureHelper s)) \<and>
         (processImageIsFunction p \<longrightarrow>
            registerProcessor p (registerProcessor p s) = registerProcessor p s) \<and>
         unregisterProcessor p (unregisterProcessor p s) = unregisterProcessor p s"
proof -
  have inv: "isCapturing t \<longleftrightarrow> processors t \<noteq> [] \<and> captureHelper t \<noteq> None"
    if "reachable t" for t
    using reachable_capturing_inv [OF that] by (simp add: capturing_inv_def)
  have rr: "reachable (registerProcessor p s)"
    using reachable.reach_step [OF assms, of "Register p"] by simp
  have ru: "reachable (unregisterProcessor p s)"
    using reachable.reach_step [OF assms, of "Unregister p"] by simp
  have a: "isCapturing s \<longleftrightarrow> processors s \<noteq> [] \<and> captureHelper s \<noteq> None"
    by (rule inv [OF assms])
  have b: "\<not> isCapturing s \<and> isCapturing (registerProcessor p s)"
    if "processImageIsFunction p \<and> processors s = [] \<and> captureHelper s \<noteq> None"
  proof -
    have "processors (registerProcessor p s) \<noteq> []" "captureHelper (registerProcessor p s) \<noteq> None"
      using that
      by (auto simp: registerProcessor_def startCaptureLoop_def Let_def set_add_def
            split: option.splits)
    with inv [OF rr] a that show ?thesis by simp
  qed
  have c: "\<not> isCapturing (unregisterProcessor p s) \<and>
           captureHelper (unregisterProcessor p s) = map_option stopStreaming (captureHelper s)"
    if "processors s = [pid p]"
    using that a
    by (auto simp: unregisterProcessor_def stopCaptureLoop_def Let_def set_delete_def
          split: option.splits)
  have d: "registerProcessor p (registerProcessor p s) = registerProcessor p s"
    if f: "processImageIsFunction p"
  proof -
    let ?t = "registerProcessor p s"
    have mem: "pid p \<in> set (processors ?t)"
      using f by (auto simp: registerProcessor_def startCaptureLoop_def Let_def set_add_def
            split: option.splits)
    then have "set_add (pid p) (processors ?t) = processors ?t" by (simp add: set_add_def)
    moreover have "\<not> (captureHelper ?t \<noteq> None \<and> \<not> isCapturing ?t \<and> processors ?t \<noteq> [])"
      using inv [OF rr] by blast
    ultimately show ?thesis
      using f by (auto simp: registerProcessor_def [of p ?t] Let_def)
  qed
  have e: "unregisterProcessor p (unregisterProcessor p s) = unregisterProcessor p s"
  proof -
    let ?t = "unregisterProcessor p s"
    have "processors ?t = set_delete (pid p) (processors s)"
      by (simp add: unregisterProcessor_def stopCaptureLoop_def Let_def split: option.splits)
    then have "set_delete (pid p) (processors ?t) = processors ?t"
      by (simp add: set_delete_def)
    moreover have "\<not> (isCapturing ?t \<and> processors ?t = [])"
      using inv [OF ru] by blast
    ultimately show ?thesis
      by (auto simp: unregisterProcessor_def [of p ?t] Let_def)
  qed
  from a b c d e show ?thesis by blast
qed

text \<open>
  Claim C10. When \<open>processImage\<close> of the argument is not a function,
  \<open>registerProcessor\<close> only appends its error message to the error log: the processor set,
  the capture flag, the capture helper and every other field stay as they were, and the
  capture loop is not started.
\<close>

theorem invalid_registration:
  assumes "\<not> processImageIsFunction p"
  shows "registerProcessor p s =
           s\<lparr>errorLog := errorLog s @
               [''Processor must implement processImage(imageData, metadata) that returns a Promise.'']\<rparr> \<and>
         processors (registerProcessor p s) = processors s \<and>
         isCapturing (registerProcessor p s) = isCapturing s \<and>
         captureHelper (registerProcessor p s) = captureHelper s \<and>
         activeApiName (registerProcessor p s) = activeApiName s \<and>
         xrFrameRequests (registerProcessor p s) = xrFrameRequests s"
  using assms by (simp add: registerProcessor_def)


theorem capturing_iff_witness:
  "reachable demo0 \<and> \<not> isCapturing demo0 \<and>
   isCapturing (registerProcessor \<lparr>pid = 1, processImageIsFunction = True\<rparr> demo0) \<and>
   registerProcessor \<lparr>pid = 1, processImageIsFunction = True\<rparr>
     (registerProcessor \<lparr>pid = 1, processImageIsFunction = True\<rparr> demo0) =
   registerProcessor \<lparr>pid = 1, processImageIsFunction = True\<rparr> demo0 \<and>
   \<not> isCapturing (unregisterProcessor \<lparr>pid = 1, processImageIsFunction = True\<rparr>
       (registerProcessor \<lparr>pid = 1, processImageIsFunction = True\<rparr> demo0))"
proof -
  let ?p = "\<lparr>pid = 1, processImageIsFunction = True\<rparr>"
  have r0: "reachable demo0"
    unfolding demo0_def by (rule reachable_run) (rule reachable.reach_init)
  have r1: "reachable (registerProcessor ?p demo0)"
    using reachable.reach_step [OF r0, of "Register ?p"] by simp
  have v0: "processors demo0 = [] \<and> captureHelper demo0 \<noteq> None"
    by (simp add: demo0_def newProvider_def helperInitSucceeded_def Let_def)
  have v1: "processors (registerProcessor ?p demo0) = [pid ?p]"
    by (simp add: demo0_def newProvider_def helperInitSucceeded_def registerProcessor_def
          startCaptureLoop_def set_add_def Let_def)
  from capturing_iff [OF r0, of ?p] v0
  have a: "\<not> isCapturing demo0 \<and> isCapturing (registerProcessor ?p demo0) \<and>
           registerProcessor ?p (registerProcessor ?p demo0) = registerProcessor ?p demo0"
    by simp
  from capturing_iff [OF r1, of ?p] v1
  have b: "\<not> isCapturing (unregisterProcessor ?p (registerProcessor ?p demo0))"
    by blast
  from r0 a b show ?thesis by blast
qed

theorem invalid_registration_witness:
  "\<not> processImageIsFunction \<lparr>pid = 3, processImageIsFunction = False\<rparr> \<and>
   processors (registerProcessor \<lparr>pid = 3, processImageIsFunction = False\<rparr> demo) = [1, 2] \<and>
   isCapturing (registerProcessor \<lparr>pid = 3, processImageIsFunction = False\<rparr> demo) \<and>
   captureHelper (registerProcessor \<lparr>pid = 3, processImageIsFunction = False\<rparr> demo) =
     Some \<lparr>api = WebARGUM, isStreaming = True\<rparr>"
proof -
  have n: "\<not> processImageIsFunction \<lparr>pid = 3, processImageIsFunction = False\<rparr>" by simp
  from invalid_registration [OF n, of demo] n show ?thesis
    by (simp add: demo_value)
qed

section \<open>Properties of the marker-detection processor\<close>

lemma pow2_pos: "0 < pow2 k"
  by (simp add: pow2_def)

lemma round_half_even_nonneg: "0 \<le> x \<Longrightarrow> 0 \<le> round_half_even x"
  by (simp add: round_half_even_def Let_def)

lemma fl_nonneg: "0 \<le> x \<Longrightarrow> 0 \<le> fl x"
  by (simp add: fl_def Let_def pow2_pos round_half_even_nonneg less_imp_le)

lemma fl_nonpos: "x \<le> 0 \<Longrightarrow> fl x \<le> 0"
proof (cases "x = 0")
  case True
  then show ?thesis by (simp add: fl_def)
next
  case False
  assume "x \<le> 0"
  with False have neg: "x < 0" by simp
  let ?q = "pow2 (max (exponent \<bar>x\<bar> - 52) (- 1074))"
  have "0 \<le> of_int (round_half_even (\<bar>x\<bar> / ?q)) * ?q"
    using pow2_pos [of "max (exponent \<bar>x\<bar> - 52) (- 1074)"]
    by (simp add: round_half_even_nonneg less_imp_le)
  moreover have "fl x = - (of_int (round_half_even (\<bar>x\<bar> / ?q)) * ?q)"
    using neg by (simp add: fl_def Let_def)
  ultimately show ?thesis by simp
qed

lemma js_round_nonpos: "x \<le> 0 \<Longrightarrow> js_le_zero (js_round x)"
  using fl_nonpos [of x] by (auto simp: js_round_def Let_def)

lemma divideBy1000_rejects:
  "isNaN parsed \<or> js_le_zero parsed \<Longrightarrow>
   isNaN (divideBy1000 parsed) \<or> js_le_zero (divideBy1000 parsed)"
  by (cases parsed) (simp_all add: js_round_nonpos)

lemma not_rejected_iff:
  "\<not> (isNaN x \<or> js_le_zero x) \<longleftrightarrow> js_gt_zero x"
  by (cases x) auto

lemma sendMarker_fields:
  "knownMarkers (sendMarkerToWorker i z s) = knownMarkers s"
  "cvWorker (sendMarkerToWorker i z s) = cvWorker s"
  "cvWorkerReady (sendMarkerToWorker i z s) = cvWorkerReady s"
  by (simp_all add: sendMarkerToWorker_def)

lemma replayMarkers_fields:
  "knownMarkers (replayMarkers ms s) = knownMarkers s"
  "cvWorker (replayMarkers ms s) = cvWorker s"
  "cvWorkerReady (replayMarkers ms s) = cvWorkerReady s"
  by (induction ms arbitrary: s) (auto simp: sendMarker_fields)

lemma replayMarkers_ready:
  "cvWorker s \<Longrightarrow> cvWorkerReady s \<Longrightarrow>
   replayMarkers ms s = s\<lparr>posted := posted s @ map (\<lambda>(i, z). KNOWN_MARKER_ADD i z) ms\<rparr>"
proof (induction ms arbitrary: s)
  case Nil
  then show ?case by simp
next
  case (Cons m ms)
  obtain i z where m: "m = (i, z)" by (cases m)
  let ?s1 = "sendMarkerToWorker i z s"
  have s1: "?s1 = s\<lparr>posted := posted s @ [KNOWN_MARKER_ADD i z]\<rparr>"
    using Cons.prems by (simp add: sendMarkerToWorker_def)
  have "replayMarkers ms ?s1 = ?s1\<lparr>posted := posted ?s1 @ map (\<lambda>(i, z). KNOWN_MARKER_ADD i z) ms\<rparr>"
    using Cons.prems by (intro Cons.IH) (simp_all add: sendMarker_fields)
  then show ?case unfolding m by (simp add: s1)
qed

lemma tag_inv_init: "tag_inv newAprilTagProcessor"
  by (simp add: tag_inv_def newAprilTagProcessor_def)

lemma tag_inv_add: "tag_inv s \<Longrightarrow> tag_inv (addKnownMarker i p s)"
  by (auto simp: tag_inv_def addKnownMarker_def Let_def sendMarkerToWorker_def distinct_update)

lemma tag_inv_remove: "tag_inv s \<Longrightarrow> tag_inv (removeKnownMarker i s)"
  by (auto simp: tag_inv_def removeKnownMarker_def Let_def distinct_delete)

lemma tag_inv_message: "tag_inv s \<Longrightarrow> tag_inv (handleCvWorkerMessage ev s)"
  by (cases "reply ev"; cases "returnedPixels ev")
     (auto simp: tag_inv_def handleCvWorkerMessage_def Let_def replayMarkers_fields)

lemma tag_inv_processImage: "tag_inv s \<Longrightarrow> tag_inv (snd (aprilTag_processImage img md s))"
  by (auto simp: tag_inv_def aprilTag_processImage_def postFrame_def Let_def
        split: option.splits canvas.splits)

lemma tag_inv_destroy: "tag_inv s \<Longrightarrow> tag_inv (destroyAprilTag s)"
  by (auto simp: tag_inv_def destroyAprilTag_def Let_def)

lemma tag_inv_step: "tag_inv s \<Longrightarrow> tag_inv (tag_step e s)"
  by (cases e)
     (simp_all add: tag_inv_add tag_inv_remove tag_inv_message tag_inv_processImage tag_inv_destroy)

lemma tag_reachable_inv: "tag_reachable s \<Longrightarrow> tag_inv s"
  by (induction rule: tag_reachable.induct) (simp_all add: tag_inv_init tag_inv_step)

lemma replayed_once:
  "distinct (map fst ms) \<Longrightarrow> map_of ms i = Some z \<Longrightarrow>
   filter (addsMarker i) (map (\<lambda>(i, z). KNOWN_MARKER_ADD i z) ms) = [KNOWN_MARKER_ADD i z]"
proof (induction ms)
  case Nil
  then show ?case by simp
next
  case (Cons m ms)
  obtain k v where m: "m = (k, v)" by (cases m)
  show ?case
  proof (cases "k = i")
    case True
    with Cons.prems m have v: "v = z" and notin: "i \<notin> fst ` set ms" by auto
    have "filter (addsMarker i) (map (\<lambda>(i, z). KNOWN_MARKER_ADD i z) ms) = []"
      using notin by (force simp: filter_empty_conv)
    with True v m show ?thesis by simp
  next
    case False
    with Cons m show ?thesis by simp
  qed
qed

lemma update_new: "map_of km i = None \<Longrightarrow> AList.update i z km = km @ [(i, z)]"
  by (induction km) (auto split: if_splits)

lemma handle_init_done:
  "cvWorker s \<Longrightarrow>
   posted (handleCvWorkerMessage \<lparr>reply = INIT_DONE, returnedPixels = px\<rparr> s) =
     posted s @ map (\<lambda>(i, z). KNOWN_MARKER_ADD i z) (knownMarkers s)"
  by (cases px) (simp_all add: handleCvWorkerMessage_def replayMarkers_ready)

subsection \<open>Rounding error of the double-precision weighted sum\<close>

text \<open>
  For byte operands every product and sum of \<open>0.299 * R + 0.587 * G + 0.114 * B\<close> stays
  below \<open>256\<close>, so each rounding moves the value by at most \<open>2 ^ - 46\<close>; the exact
  sum is a multiple of \<open>1 / 1000\<close>, so the truncated byte is the floor of the exact sum
  or one less.
\<close>

lemma pow2_powi: "pow2 k = 2 powi k"
  by (simp add: pow2_def power_int_def power_one_over inverse_eq_divide)

lemma pow2_mono: "i \<le> j \<Longrightarrow> pow2 i \<le> pow2 j"
  by (simp add: pow2_powi power_int_increasing)

lemma pow2_less_exp: "pow2 i < pow2 j \<Longrightarrow> i < j"
proof (rule ccontr)
  assume a: "pow2 i < pow2 j" and "\<not> i < j"
  then have "j \<le> i" by simp
  then have "pow2 j \<le> pow2 i" by (rule pow2_mono)
  with a show False by simp
qed

lemma pow2_diff: "pow2 (i - j) = pow2 i / pow2 j"
  by (simp add: pow2_powi power_int_diff)

lemma pow2_nat: "pow2 (int n) = 2 ^ n"
  by (simp add: pow2_def)

lemma bitlen_nonneg: "0 \<le> bitlen n"
proof (induction n rule: bitlen.induct)
  case (1 n)
  then show ?case by (subst bitlen.simps) simp
qed

lemma bitlen_bounds:
  "0 < n \<Longrightarrow> 2 ^ nat (bitlen n - 1) \<le> n \<and> n < 2 ^ nat (bitlen n)"
proof (induction n rule: bitlen.induct)
  case (1 n)
  have step: "bitlen n = 1 + bitlen (n div 2)"
    using "1.prems" by (subst bitlen.simps) simp
  show ?case
  proof (cases "n div 2 = 0")
    case True
    with "1.prems" have n1: "n = 1" by presburger
    have "bitlen 0 = 0" by (subst bitlen.simps) simp
    with True step n1 show ?thesis by simp
  next
    case False
    with "1.prems" have pos: "0 < n div 2" by presburger
    from "1.prems" have "\<not> n \<le> 0" by simp
    from "1.IH" [OF this pos]
    have ih: "2 ^ nat (bitlen (n div 2) - 1) \<le> n div 2" "n div 2 < 2 ^ nat (bitlen (n div 2))"
      by simp_all
    have bl: "1 \<le> bitlen (n div 2)"
      using pos by (subst bitlen.simps) (simp add: bitlen_nonneg)
    have e1: "nat (bitlen n - 1) = Suc (nat (bitlen (n div 2) - 1))"
      using bl by (simp add: step nat_diff_distrib' Suc_nat_eq_nat_zadd1)
    have e2: "nat (bitlen n) = Suc (nat (bitlen (n div 2)))"
      using bl by (simp add: step nat_add_distrib)
    have lo: "2 * (n div 2) \<le> n" by presburger
    have hi: "n \<le> 2 * (n div 2) + 1" by presburger
    from ih lo have "2 ^ nat (bitlen n - 1) \<le> n" unfolding e1 by simp
    moreover from ih hi have "n < 2 ^ nat (bitlen n)" unfolding e2 by simp
    ultimately show ?thesis by simp
  qed
qed


lemma bitlen_pos: "0 < n \<Longrightarrow> 1 \<le> bitlen n"
  by (subst bitlen.simps) (simp add: bitlen_nonneg)

lemma exponent_upper:
  assumes "0 < x" and "x < pow2 K"
  shows "exponent x < K"
proof -
  obtain a b where q: "quotient_of x = (a, b)" by (cases "quotient_of x")
  have b: "0 < b" using quotient_of_denom_pos [OF q] .
  have x: "x = of_int a / of_int b" using quotient_of_div [OF q] .
  have a: "0 < a"
    using assms(1) b unfolding x by (simp add: zero_less_divide_iff)
  let ?k = "bitlen a - bitlen b"
  have ex: "exponent x = (if pow2 ?k \<le> x then ?k else ?k - 1)"
    by (simp add: exponent_def q Let_def)
  show ?thesis
  proof (cases "pow2 ?k \<le> x")
    case True
    with assms(2) have "pow2 ?k < pow2 K" by simp
    then have "?k < K" by (rule pow2_less_exp)
    with True ex show ?thesis by simp
  next
    case False
    have la: "0 \<le> bitlen a - 1" using bitlen_pos [OF a] by simp
    have lb: "0 \<le> bitlen b" by (rule bitlen_nonneg)
    from bitlen_bounds [OF a] have "(2::int) ^ nat (bitlen a - 1) \<le> a" by simp
    then have "(of_int (2 ^ nat (bitlen a - 1)) :: rat) \<le> of_int a"
      by (simp only: of_int_le_iff)
    then have A: "pow2 (bitlen a - 1) \<le> of_int a"
      using la by (simp add: pow2_def)
    from bitlen_bounds [OF b] have "b < (2::int) ^ nat (bitlen b)" by simp
    then have "(of_int b :: rat) < of_int (2 ^ nat (bitlen b))"
      by (simp only: of_int_less_iff)
    then have B: "of_int b < pow2 (bitlen b)"
      using lb by (simp add: pow2_def)
    have bp: "(0::rat) < of_int b" using b by simp
    have "pow2 (?k - 1) = pow2 (bitlen a - 1) / pow2 (bitlen b)"
      using pow2_diff [of "bitlen a - 1" "bitlen b"] by (simp add: algebra_simps)
    also have "\<dots> \<le> of_int a / pow2 (bitlen b)"
      using A pow2_pos [of "bitlen b"] by (simp add: divide_right_mono)
    also have "\<dots> \<le> of_int a / of_int b"
      using B bp a by (simp add: frac_le)
    finally have "pow2 (?k - 1) \<le> x" unfolding x .
    with assms(2) have "pow2 (?k - 1) < pow2 K" by simp
    then have "?k - 1 < K" by (rule pow2_less_exp)
    with False ex show ?thesis by simp
  qed
qed

lemma round_half_even_error: "\<bar>of_int (round_half_even y) - y\<bar> \<le> 1 / 2"
proof -
  have f: "of_int \<lfloor>y\<rfloor> \<le> y" "y < of_int \<lfloor>y\<rfloor> + 1" by linarith+
  show ?thesis
    using f by (auto simp: round_half_even_def Let_def abs_le_iff)
qed

lemma fl_error:
  assumes "0 \<le> x" and "x < 256"
  shows "\<bar>fl x - x\<bar> \<le> 1 / 70368744177664"
proof (cases "x = 0")
  case True
  then show ?thesis by (simp add: fl_def)
next
  case False
  with assms(1) have pos: "0 < x" by simp
  have "pow2 8 = 256" by (simp add: pow2_def)
  with assms(2) have "x < pow2 8" by simp
  from exponent_upper [OF pos this] have e: "exponent x < 8" .
  let ?m = "max (exponent x - 52) (- 1074)"
  let ?q = "pow2 ?m"
  let ?r = "round_half_even (x / ?q)"
  from e have "?m \<le> - 45" by simp
  then have "?q \<le> pow2 (- 45)" by (rule pow2_mono)
  also have "pow2 (- 45) = 1 / 2 ^ 45" by (simp add: pow2_def)
  finally have q45: "?q \<le> 1 / 2 ^ 45" .
  have qp: "0 < ?q" by (rule pow2_pos)
  have flx: "fl x = of_int ?r * ?q"
    using pos by (simp add: fl_def Let_def)
  have "fl x - x = (of_int ?r - x / ?q) * ?q"
    using qp by (simp add: flx field_simps)
  then have "\<bar>fl x - x\<bar> = \<bar>of_int ?r - x / ?q\<bar> * ?q"
    using qp by (simp add: abs_mult)
  also have "\<dots> \<le> 1 / 2 * ?q"
    using round_half_even_error [of "x / ?q"] qp by (simp add: mult_right_mono)
  also have "\<dots> \<le> 1 / 2 * (1 / 2 ^ 45)"
    using q45 by simp
  also have "\<dots> = 1 / 70368744177664" by simp
  finally show ?thesis .
qed


lemma js_round_small:
  assumes "0 \<le> x" and "x < 256"
  shows "js_round x = Finite (fl x)"
proof -
  from fl_error [OF assms] have "fl x \<le> x + 1 / 70368744177664" by linarith
  with assms(2) have "fl x < 257" by simp
  moreover have "(257::rat) < of_int (2 ^ 1024)" by simp
  ultimately have up: "\<not> of_int (2 ^ 1024) \<le> fl x" by simp
  have "0 \<le> fl x" using assms(1) by (rule fl_nonneg)
  moreover have "- (of_int (2 ^ 1024) :: rat) < 0" by simp
  ultimately have lo: "\<not> fl x \<le> - of_int (2 ^ 1024)" by simp
  from up lo show ?thesis by (simp add: js_round_def Let_def)
qed

lemma byte_range: "0 \<le> (unsigned (w :: 8 word) :: rat) \<and> (unsigned w :: rat) \<le> 255"
proof -
  have u: "(unsigned w :: rat) = of_int (uint w)" by simp
  have "uint w < 2 ^ 8" using uint_lt2p [of w] by simp
  then have "uint w \<le> 255" by simp
  then have "(of_int (uint w) :: rat) \<le> of_int 255" by (simp only: of_int_le_iff)
  moreover have "(0::rat) \<le> of_int (uint w)"
    using uint_range_size [of w] by (simp only: of_int_0_le_iff)
  ultimately show ?thesis unfolding u by simp
qed

lemma product_error:
  assumes "0 \<le> w" and "w \<le> 6 / 10" and "0 \<le> R" and "R \<le> 255"
  shows "\<exists>p. js_mul (js_literal w) (Finite R) = Finite p \<and> 0 \<le> p \<and>
             \<bar>p - w * R\<bar> \<le> 1 / 274877906944"
proof -
  let ?c = "fl w"
  have w256: "w < 256" using assms(2) by simp
  have lit: "js_literal w = Finite ?c"
    using js_round_small [OF assms(1) w256] by (simp add: js_literal_def)
  have ce: "\<bar>?c - w\<bar> \<le> 1 / 70368744177664" by (rule fl_error [OF assms(1) w256])
  have c0: "0 \<le> ?c" using assms(1) by (rule fl_nonneg)
  from ce assms(2) have c1: "?c \<le> 7 / 10" by linarith
  have p0: "0 \<le> ?c * R" using c0 assms(3) by simp
  have "?c * R \<le> 7 / 10 * 255" using c1 c0 assms(3,4) by (intro mult_mono) simp_all
  then have p256: "?c * R < 256" by simp
  have mul: "js_mul (js_literal w) (Finite R) = Finite (fl (?c * R))"
    using js_round_small [OF p0 p256] by (simp add: lit)
  have pe: "\<bar>fl (?c * R) - ?c * R\<bar> \<le> 1 / 70368744177664" by (rule fl_error [OF p0 p256])
  have "\<bar>?c * R - w * R\<bar> = \<bar>?c - w\<bar> * R"
    using assms(3) by (simp add: abs_mult left_diff_distrib [symmetric])
  also have "\<dots> \<le> 1 / 70368744177664 * 255"
    using ce assms(3,4) by (intro mult_mono) simp_all
  finally have "\<bar>?c * R - w * R\<bar> \<le> 255 / 70368744177664" by simp
  with pe have "\<bar>fl (?c * R) - w * R\<bar> \<le> 1 / 274877906944" by linarith
  moreover have "0 \<le> fl (?c * R)" using p0 by (rule fl_nonneg)
  ultimately show ?thesis using mul by blast
qed

lemma weighted_error:
  fixes r g b :: "8 word"
  shows "\<exists>y. weightedSum (Finite (unsigned r)) (Finite (unsigned g)) (Finite (unsigned b)) =
               Finite y \<and>
             0 \<le> y \<and> \<bar>y - exactWeightedSum r g b\<bar> \<le> 1 / 90000000000"
proof -
  let ?R = "unsigned r :: rat" and ?G = "unsigned g :: rat" and ?B = "unsigned b :: rat"
  note R = byte_range [of r] and G = byte_range [of g] and B = byte_range [of b]
  from product_error [of "299 / 1000" ?R] R obtain p1 where
    p1: "js_mul (js_literal (299 / 1000)) (Finite ?R) = Finite p1" "0 \<le> p1"
        "\<bar>p1 - 299 / 1000 * ?R\<bar> \<le> 1 / 274877906944" by auto
  from product_error [of "587 / 1000" ?G] G obtain p2 where
    p2: "js_mul (js_literal (587 / 1000)) (Finite ?G) = Finite p2" "0 \<le> p2"
        "\<bar>p2 - 587 / 1000 * ?G\<bar> \<le> 1 / 274877906944" by auto
  from product_error [of "114 / 1000" ?B] B obtain p3 where
    p3: "js_mul (js_literal (114 / 1000)) (Finite ?B) = Finite p3" "0 \<le> p3"
        "\<bar>p3 - 114 / 1000 * ?B\<bar> \<le> 1 / 274877906944" by auto
  have s0: "0 \<le> p1 + p2" using p1(2) p2(2) by simp
  have s256: "p1 + p2 < 256" using p1(3) p2(3) R G by linarith
  let ?s1 = "fl (p1 + p2)"
  have add1: "js_add (Finite p1) (Finite p2) = Finite ?s1"
    using js_round_small [OF s0 s256] by simp
  have e1: "\<bar>?s1 - (p1 + p2)\<bar> \<le> 1 / 70368744177664" by (rule fl_error [OF s0 s256])
  have s1_0: "0 \<le> ?s1" using s0 by (rule fl_nonneg)
  have t0: "0 \<le> ?s1 + p3" using s1_0 p3(2) by simp
  have t256: "?s1 + p3 < 256" using e1 p1(3) p2(3) p3(3) R G B by linarith
  let ?s2 = "fl (?s1 + p3)"
  have add2: "js_add (Finite ?s1) (Finite p3) = Finite ?s2"
    using js_round_small [OF t0 t256] by simp
  have e2: "\<bar>?s2 - (?s1 + p3)\<bar> \<le> 1 / 70368744177664" by (rule fl_error [OF t0 t256])
  have val: "weightedSum (Finite ?R) (Finite ?G) (Finite ?B) = Finite ?s2"
    by (simp only: weightedSum_def p1(1) p2(1) p3(1) add1 add2)
  have ex: "exactWeightedSum r g b = 299 / 1000 * ?R + 587 / 1000 * ?G + 114 / 1000 * ?B"
    by (simp add: exactWeightedSum_def)
  have "\<bar>?s2 - exactWeightedSum r g b\<bar> \<le> 1 / 90000000000"
    unfolding ex using e1 e2 p1(3) p2(3) p3(3) by linarith
  moreover have "0 \<le> ?s2" using t0 by (rule fl_nonneg)
  ultimately show ?thesis using val by blast
qed


lemma scaled_remainder: "(a::rat) \<le> 1000 * d + 999 \<Longrightarrow> a / 1000 \<le> d + 999 / 1000"
  by (simp add: field_simps)

lemma stored_byte_bounds:
  fixes r g b :: "8 word"
  shows "\<lfloor>exactWeightedSum r g b\<rfloor> - 1 \<le>
           uint (toUint8 (weightedSum (Finite (unsigned r)) (Finite (unsigned g)) (Finite (unsigned b)))) \<and>
         uint (toUint8 (weightedSum (Finite (unsigned r)) (Finite (unsigned g)) (Finite (unsigned b)))) \<le>
           \<lfloor>exactWeightedSum r g b\<rfloor>"
proof -
  let ?R = "unsigned r :: rat" and ?G = "unsigned g :: rat" and ?B = "unsigned b :: rat"
  let ?x = "exactWeightedSum r g b"
  note R = byte_range [of r] and G = byte_range [of g] and B = byte_range [of b]
  from weighted_error [of r g b] obtain y where
    val: "weightedSum (Finite ?R) (Finite ?G) (Finite ?B) = Finite y" and y0: "0 \<le> y"
    and err: "\<bar>y - ?x\<bar> \<le> 1 / 90000000000" by blast
  have ex: "?x = 299 / 1000 * ?R + 587 / 1000 * ?G + 114 / 1000 * ?B"
    by (simp add: exactWeightedSum_def)
  let ?N = "299 * uint r + 587 * uint g + 114 * uint b"
  have N: "(of_int ?N :: rat) = 299 * ?R + 587 * ?G + 114 * ?B" by simp
  have exN: "?x = of_int ?N / 1000"
    unfolding N ex by (simp add: add_divide_distrib)
  have fx: "\<lfloor>?x\<rfloor> = ?N div 1000"
    using floor_divide_of_int_eq [of ?N 1000, where ?'a = rat] unfolding exN by simp
  have "?N = 1000 * (?N div 1000) + ?N mod 1000" by simp
  moreover have "?N mod 1000 \<le> 999" by simp
  ultimately have "?N \<le> 1000 * (?N div 1000) + 999" by linarith
  then have "(of_int ?N :: rat) \<le> of_int (1000 * (?N div 1000) + 999)"
    by (simp only: of_int_le_iff)
  then have "(of_int ?N :: rat) \<le> 1000 * of_int (?N div 1000) + 999"
    by (simp only: of_int_add of_int_mult of_int_numeral)
  then have "(of_int ?N :: rat) / 1000 \<le> of_int (?N div 1000) + 999 / 1000"
    by (rule scaled_remainder)
  then have frac: "?x \<le> of_int \<lfloor>?x\<rfloor> + 999 / 1000"
    unfolding fx unfolding exN .
  have x255: "?x \<le> 255" unfolding ex using R G B by linarith
  from err x255 have y256: "y < 256" by linarith
  from y0 have f0: "0 \<le> \<lfloor>y\<rfloor>" by simp
  from y256 have f255: "\<lfloor>y\<rfloor> < 256" by (simp add: floor_less_iff)
  have "uint (toUint8 (Finite y)) = \<lfloor>y\<rfloor> mod 2 ^ 8"
    using y0 by (simp add: uint_word_of_int)
  with f0 f255 have u: "uint (toUint8 (Finite y)) = \<lfloor>y\<rfloor>" by simp
  from err frac have "y < of_int \<lfloor>?x\<rfloor> + 1" by linarith
  then have "y < of_int (\<lfloor>?x\<rfloor> + 1)" by simp
  then have "\<lfloor>y\<rfloor> < \<lfloor>?x\<rfloor> + 1" by (simp only: floor_less_iff)
  then have up: "\<lfloor>y\<rfloor> \<le> \<lfloor>?x\<rfloor>" by simp
  have "of_int \<lfloor>?x\<rfloor> \<le> ?x" by simp
  with err have "of_int \<lfloor>?x\<rfloor> - 1 \<le> y" by linarith
  then have "of_int (\<lfloor>?x\<rfloor> - 1) \<le> y" by simp
  then have lo: "\<lfloor>?x\<rfloor> - 1 \<le> \<lfloor>y\<rfloor>" by (simp only: le_floor_iff)
  from up lo show ?thesis unfolding val u by simp
qed

subsection \<open>Relative rounding error\<close>

lemma exponent_lower:
  assumes "0 < x"
  shows "pow2 (exponent x) \<le> x"
proof -
  obtain a b where q: "quotient_of x = (a, b)" by (cases "quotient_of x")
  have b: "0 < b" using quotient_of_denom_pos [OF q] .
  have x: "x = of_int a / of_int b" using quotient_of_div [OF q] .
  have a: "0 < a"
    using assms b unfolding x by (simp add: zero_less_divide_iff)
  let ?k = "bitlen a - bitlen b"
  have ex: "exponent x = (if pow2 ?k \<le> x then ?k else ?k - 1)"
    by (simp add: exponent_def q Let_def)
  show ?thesis
  proof (cases "pow2 ?k \<le> x")
    case True
    with ex show ?thesis by simp
  next
    case False
    have la: "0 \<le> bitlen a - 1" using bitlen_pos [OF a] by simp
    have lb: "0 \<le> bitlen b" by (rule bitlen_nonneg)
    from bitlen_bounds [OF a] have "(2::int) ^ nat (bitlen a - 1) \<le> a" by simp
    then have "(of_int (2 ^ nat (bitlen a - 1)) :: rat) \<le> of_int a"
      by (simp only: of_int_le_iff)
    then have A: "pow2 (bitlen a - 1) \<le> of_int a"
      using la by (simp add: pow2_def)
    from bitlen_bounds [OF b] have "b < (2::int) ^ nat (bitlen b)" by simp
    then have "(of_int b :: rat) < of_int (2 ^ nat (bitlen b))"
      by (simp only: of_int_less_iff)
    then have B: "of_int b < pow2 (bitlen b)"
      using lb by (simp add: pow2_def)
    have bp: "(0::rat) < of_int b" using b by simp
    have "pow2 (?k - 1) = pow2 (bitlen a - 1) / pow2 (bitlen b)"
      using pow2_diff [of "bitlen a - 1" "bitlen b"] by (simp add: algebra_simps)
    also have "\<dots> \<le> of_int a / pow2 (bitlen b)"
      using A pow2_pos [of "bitlen b"] by (simp add: divide_right_mono)
    also have "\<dots> \<le> of_int a / of_int b"
      using B bp a by (simp add: frac_le)
    finally have "pow2 (?k - 1) \<le> x" unfolding x .
    with False ex show ?thesis by simp
  qed
qed

lemma quantum_bound:
  assumes "pow2 (- 1022) \<le> x"
  shows "pow2 (max (exponent x - 52) (- 1074)) \<le> x / 2 ^ 52"
proof -
  have pos: "0 < x" using assms pow2_pos [of "- 1022"] by simp
  have p52: "pow2 52 = 2 ^ 52" using pow2_nat [of 52] by simp
  show ?thesis
  proof (cases "- 1074 \<le> exponent x - 52")
    case True
    then have "max (exponent x - 52) (- 1074) = exponent x - 52" by arith
    then have "pow2 (max (exponent x - 52) (- 1074)) = pow2 (exponent x - 52)"
      by (simp only:)
    also have "\<dots> = pow2 (exponent x) / 2 ^ 52"
      using pow2_diff [of "exponent x" 52] by (simp add: p52)
    also have "\<dots> \<le> x / 2 ^ 52"
      using exponent_lower [OF pos] by (simp add: divide_right_mono)
    finally show ?thesis .
  next
    case False
    then have "max (exponent x - 52) (- 1074) = - 1022 - 52" by arith
    then have "pow2 (max (exponent x - 52) (- 1074)) = pow2 (- 1022 - 52)"
      by (simp only:)
    also have "\<dots> = pow2 (- 1022) / 2 ^ 52"
      using pow2_diff [of "- 1022" 52] by (simp add: p52)
    also have "\<dots> \<le> x / 2 ^ 52"
      using assms by (simp add: divide_right_mono)
    finally show ?thesis .
  qed
qed

lemma fl_relative_error:
  assumes "pow2 (- 1022) \<le> x"
  shows "\<bar>fl x - x\<bar> \<le> x / 2 ^ 53"
proof -
  have pos: "0 < x" using assms pow2_pos [of "- 1022"] by simp
  let ?q = "pow2 (max (exponent x - 52) (- 1074))"
  let ?r = "round_half_even (x / ?q)"
  have qp: "0 < ?q" by (rule pow2_pos)
  have flx: "fl x = of_int ?r * ?q"
    using pos by (simp add: fl_def Let_def)
  have "fl x - x = (of_int ?r - x / ?q) * ?q"
    using qp by (simp add: flx field_simps)
  then have "\<bar>fl x - x\<bar> = \<bar>of_int ?r - x / ?q\<bar> * ?q"
    using qp by (simp add: abs_mult)
  also have "\<dots> \<le> 1 / 2 * ?q"
    using round_half_even_error [of "x / ?q"] qp by (simp add: mult_right_mono)
  also have "\<dots> \<le> 1 / 2 * (x / 2 ^ 52)"
    using quantum_bound [OF assms] by simp
  also have "\<dots> = x / 2 ^ 53" by simp
  finally show ?thesis .
qed

lemma js_round_relative_error:
  assumes "pow2 (- 1022) \<le> x" and "x < pow2 1023"
  shows "\<exists>y. js_round x = Finite y \<and> 0 < y \<and> \<bar>y - x\<bar> \<le> x / 2 ^ 53"
proof -
  have pos: "0 < x" using assms(1) pow2_pos [of "- 1022"] by simp
  note e = fl_relative_error [OF assms(1)]
  have small: "x / 2 ^ 53 < x" using pos by (simp add: field_simps)
  from e small have "\<bar>fl x - x\<bar> < x" by linarith
  then have lo: "0 < fl x" and hi: "fl x < 2 * x" by linarith+
  have "2 * pow2 1023 = (of_int (2 ^ 1024) :: rat)" by (simp add: pow2_def)
  with hi assms(2) have up: "fl x < of_int (2 ^ 1024)" by linarith
  have "- (of_int (2 ^ 1024) :: rat) < 0" by simp
  with lo have dn: "\<not> fl x \<le> - of_int (2 ^ 1024)" by linarith
  from up dn have "js_round x = Finite (fl x)" by (simp add: js_round_def Let_def)
  with lo e show ?thesis by blast
qed

lemma divideBy1000_error:
  assumes "1 / 10 ^ 300 \<le> x" and "x \<le> 10 ^ 300"
  shows "\<exists>y. divideBy1000 (Finite x) = Finite y \<and> 0 < y \<and>
             \<bar>y - x / 1000\<bar> \<le> x / 1000 / 2 ^ 53"
proof -
  have "pow2 (- 1022) = 1 / 2 ^ 1022" by (simp add: pow2_def)
  also have "\<dots> \<le> (1 / 10 ^ 303 :: rat)" by simp
  also have "\<dots> = 1 / 10 ^ 300 / 1000" by simp
  also have "\<dots> \<le> x / 1000" using assms(1) by (simp add: divide_right_mono)
  finally have lo: "pow2 (- 1022) \<le> x / 1000" .
  have "x / 1000 \<le> 10 ^ 300 / 1000" using assms(2) by (simp add: divide_right_mono)
  also have "\<dots> < (2 ^ 1023 :: rat)" by simp
  also have "\<dots> = pow2 1023" by (simp add: pow2_def)
  finally have hi: "x / 1000 < pow2 1023" .
  from js_round_relative_error [OF lo hi] show ?thesis by simp
qed

subsection \<open>Known markers\<close>

lemma parseFloat_NaN:
  assumes "dropWhile isStrWhiteSpaceChar v = [] \<or>
           hd (dropWhile isStrWhiteSpaceChar v) \<notin> set ''+-.0123456789I''"
  shows "parseFloat v = NaN"
proof (cases "dropWhile isStrWhiteSpaceChar v")
  case Nil
  have "strUnsignedDecimalLiteral [] = None"
    by (simp add: strUnsignedDecimalLiteral_def)
  then show ?thesis
    unfolding parseFloat_def Nil Let_def by simp
next
  case (Cons c cs)
  with assms have c: "c \<notin> set ''+-.0123456789I''" by simp
  then have nd: "\<not> isDecimalDigit c" by (simp add: isDecimalDigit_def)
  have lit: "strUnsignedDecimalLiteral (c # cs) = None"
    using c nd by (simp add: strUnsignedDecimalLiteral_def Let_def)
  have inf: "take 8 (c # cs) \<noteq> ''Infinity''"
    using c by (cases cs) auto
  from c lit inf show ?thesis
    unfolding parseFloat_def Cons Let_def by simp
qed

lemma parse_100: "parseFloat ''100'' = Finite 100"
  by code_simp

lemma parse_100mm: "parseFloat ''100mm'' = Finite 100"
  by code_simp

lemma parse_exponent: "parseFloat '' 2.5e2'' = Finite 250"
  by code_simp

lemma parse_negative: "parseFloat ''-5'' = Finite (- 5)"
  by code_simp

lemma parse_zero: "parseFloat ''0'' = Finite 0"
  by code_simp

lemma one_tenth: "divideBy1000 (Finite 100) = Finite (3602879701896397 / 36028797018963968)"
  by code_simp

lemma rejected_state:
  assumes "\<not> js_gt_zero (divideBy1000 (parseFloat v))"
  shows "addKnownMarker i v s =
           s\<lparr>tagErrors := tagErrors s @
                [''AprilTagProcessor: Invalid size for marker '' @ i @ '': '' @ v @
                 ''mm. Must be positive.'']\<rparr>"
  using assms not_rejected_iff [of "divideBy1000 (parseFloat v)"]
  by (simp add: addKnownMarker_def Let_def)

lemma accepted_state:
  assumes "js_gt_zero (divideBy1000 (parseFloat v))"
  shows "addKnownMarker i v s =
           (if cvWorker s \<and> cvWorkerReady s
            then s\<lparr>knownMarkers := AList.update i (divideBy1000 (parseFloat v)) (knownMarkers s),
                   posted := posted s @ [KNOWN_MARKER_ADD i (divideBy1000 (parseFloat v))]\<rparr>
            else s\<lparr>knownMarkers := AList.update i (divideBy1000 (parseFloat v)) (knownMarkers s)\<rparr>)"
  using assms not_rejected_iff [of "divideBy1000 (parseFloat v)"]
  by (auto simp: addKnownMarker_def Let_def sendMarkerToWorker_def)

text \<open>
  Claim C4. \<open>addKnownMarker\<close> parses the size with \<open>parseFloat\<close> and divides it by 1000.
  In every state of the processor, ready or not, a size that parses to NaN or to a number
  that is not positive (and any size whose value in meters is not above 0) is rejected:
  only the error line is written, the known-marker map and the messages posted to the
  worker stay as they were. A size whose value in meters is above 0 is stored in the map
  under the marker id; a ready processor posts exactly one \<open>KNOWN_MARKER_ADD\<close> with the
  size in meters, a processor that is not ready posts nothing. For a processor whose
  worker is alive and not yet ready, when \<open>INIT_DONE\<close> then arrives, the messages posted
  so far contain exactly one \<open>KNOWN_MARKER_ADD\<close> for that id, and it carries the size in
  meters; for an id that is new to the map, adding before \<open>INIT_DONE\<close> and adding after
  it end in the same state. The size in meters of a parsed size \<open>x\<close> between \<open>10^-300\<close>
  and \<open>10^300\<close> is a double within the relative error \<open>2^-53\<close> of \<open>x / 1000\<close>; for 100 it
  is the double nearest to 0.1. A string that does not start, after white space, with a
  sign, a digit, a point or \<open>I\<close> parses to NaN; \<open>100mm\<close> parses to 100.
\<close>

theorem known_marker_registration:
  "(isNaN (parseFloat v) \<or> js_le_zero (parseFloat v) \<or>
    \<not> js_gt_zero (divideBy1000 (parseFloat v)) \<longrightarrow>
      addKnownMarker i v s =
        s\<lparr>tagErrors := tagErrors s @
             [''AprilTagProcessor: Invalid size for marker '' @ i @ '': '' @ v @
              ''mm. Must be positive.'']\<rparr>) \<and>
   (js_gt_zero (divideBy1000 (parseFloat v)) \<longrightarrow>
      knownMarkers (addKnownMarker i v s) =
        AList.update i (divideBy1000 (parseFloat v)) (knownMarkers s) \<and>
      map_of (knownMarkers (addKnownMarker i v s)) i = Some (divideBy1000 (parseFloat v)) \<and>
      tagErrors (addKnownMarker i v s) = tagErrors s \<and>
      (cvWorker s \<and> cvWorkerReady s \<longrightarrow>
         posted (addKnownMarker i v s) =
           posted s @ [KNOWN_MARKER_ADD i (divideBy1000 (parseFloat v))]) \<and>
      (\<not> cvWorkerReady s \<longrightarrow> posted (addKnownMarker i v s) = posted s) \<and>
      (tag_reachable s \<and> cvWorker s \<and> \<not> cvWorkerReady s \<longrightarrow>
         filter (addsMarker i)
           (posted (handleCvWorkerMessage \<lparr>reply = INIT_DONE, returnedPixels = px\<rparr>
                      (addKnownMarker i v s))) =
           [KNOWN_MARKER_ADD i (divideBy1000 (parseFloat v))] \<and>
         (map_of (knownMarkers s) i = None \<longrightarrow>
            handleCvWorkerMessage \<lparr>reply = INIT_DONE, returnedPixels = px\<rparr>
              (addKnownMarker i v s) =
            addKnownMarker i v
              (handleCvWorkerMessage \<lparr>reply = INIT_DONE, returnedPixels = px\<rparr> s)))) \<and>
   (\<forall>x. parseFloat v = Finite x \<and> 1 / 10 ^ 300 \<le> x \<and> x \<le> 10 ^ 300 \<longrightarrow>
      (\<exists>y. divideBy1000 (parseFloat v) = Finite y \<and> 0 < y \<and>
            \<bar>y - x / 1000\<bar> \<le> x / 1000 / 2 ^ 53)) \<and>
   (dropWhile isStrWhiteSpaceChar v = [] \<or>
    hd (dropWhile isStrWhiteSpaceChar v) \<notin> set ''+-.0123456789I'' \<longrightarrow>
      parseFloat v = NaN) \<and>
   parseFloat ''100'' = Finite 100 \<and>
   parseFloat ''100mm'' = Finite 100 \<and>
   parseFloat '' 2.5e2'' = Finite 250 \<and>
   parseFloat ''-5'' = Finite (- 5) \<and>
   parseFloat ''0'' = Finite 0 \<and>
   divideBy1000 (Finite 100) = Finite (3602879701896397 / 36028797018963968)"
proof -
  let ?ev = "\<lparr>reply = INIT_DONE, returnedPixels = px\<rparr>"
  let ?z = "divideBy1000 (parseFloat v)"
  let ?s1 = "addKnownMarker i v s"
  let ?line = "''AprilTagProcessor: Invalid size for marker '' @ i @ '': '' @ v @
               ''mm. Must be positive.''"
  have rej: "?s1 = s\<lparr>tagErrors := tagErrors s @ [?line]\<rparr>"
    if h: "isNaN (parseFloat v) \<or> js_le_zero (parseFloat v) \<or> \<not> js_gt_zero ?z"
  proof -
    have "\<not> js_gt_zero ?z"
      using h divideBy1000_rejects [of "parseFloat v"] not_rejected_iff [of ?z] by blast
    then show ?thesis by (rule rejected_state)
  qed
  have acc: "knownMarkers ?s1 = AList.update i ?z (knownMarkers s) \<and>
      map_of (knownMarkers ?s1) i = Some ?z \<and>
      tagErrors ?s1 = tagErrors s \<and>
      (cvWorker s \<and> cvWorkerReady s \<longrightarrow> posted ?s1 = posted s @ [KNOWN_MARKER_ADD i ?z]) \<and>
      (\<not> cvWorkerReady s \<longrightarrow> posted ?s1 = posted s) \<and>
      (tag_reachable s \<and> cvWorker s \<and> \<not> cvWorkerReady s \<longrightarrow>
         filter (addsMarker i) (posted (handleCvWorkerMessage ?ev ?s1)) = [KNOWN_MARKER_ADD i ?z] \<and>
         (map_of (knownMarkers s) i = None \<longrightarrow>
            handleCvWorkerMessage ?ev ?s1 = addKnownMarker i v (handleCvWorkerMessage ?ev s)))"
    if pos: "js_gt_zero ?z"
  proof -
    note st = accepted_state [OF pos, of i s]
    have a1: "knownMarkers ?s1 = AList.update i ?z (knownMarkers s)"
      unfolding st by simp
    have a2: "map_of (knownMarkers ?s1) i = Some ?z"
      unfolding a1 by (simp add: update_conv')
    have a3: "tagErrors ?s1 = tagErrors s" unfolding st by simp
    have a4: "posted ?s1 = posted s @ [KNOWN_MARKER_ADD i ?z]" if "cvWorker s \<and> cvWorkerReady s"
      unfolding st using that by simp
    have a5: "posted ?s1 = posted s" if "\<not> cvWorkerReady s"
      unfolding st using that by simp
    have a6: "filter (addsMarker i) (posted (handleCvWorkerMessage ?ev ?s1)) = [KNOWN_MARKER_ADD i ?z] \<and>
         (map_of (knownMarkers s) i = None \<longrightarrow>
            handleCvWorkerMessage ?ev ?s1 = addKnownMarker i v (handleCvWorkerMessage ?ev s))"
      if h: "tag_reachable s \<and> cvWorker s \<and> \<not> cvWorkerReady s"
    proof -
      from h have r: "tag_reachable s" and w: "cvWorker s" and n: "\<not> cvWorkerReady s"
        by simp_all
      have s1: "?s1 = s\<lparr>knownMarkers := AList.update i ?z (knownMarkers s)\<rparr>"
        unfolding st using n by simp
      have r1: "tag_reachable ?s1"
        using tag_reachable.tag_next [OF r, of "AddKnownMarker i v"] by simp
      have w1: "cvWorker ?s1" "\<not> cvWorkerReady ?s1"
        using w n by (simp_all add: s1)
      from tag_reachable_inv [OF r1] w1
      have d1: "distinct (map fst (knownMarkers ?s1))" and p1: "posted ?s1 = [INIT]"
        by (simp_all add: tag_inv_def)
      have "posted (handleCvWorkerMessage ?ev ?s1) =
              [INIT] @ map (\<lambda>(i, z). KNOWN_MARKER_ADD i z) (knownMarkers ?s1)"
        using handle_init_done [OF w1(1), of px] p1 by simp
      then have c: "filter (addsMarker i) (posted (handleCvWorkerMessage ?ev ?s1)) =
                      [KNOWN_MARKER_ADD i ?z]"
        using replayed_once [OF d1 a2] by simp
      have ok: "\<not> (isNaN ?z \<or> js_le_zero ?z)"
        using pos not_rejected_iff [of ?z] by blast
      have d: "handleCvWorkerMessage ?ev ?s1 = addKnownMarker i v (handleCvWorkerMessage ?ev s)"
        if new: "map_of (knownMarkers s) i = None"
        using ok w n update_new [OF new, of ?z]
        by (cases px)
           (simp_all add: s1 handleCvWorkerMessage_def replayMarkers_ready addKnownMarker_def
              Let_def sendMarkerToWorker_def)
      from c d show ?thesis by blast
    qed
    from a1 a2 a3 a4 a5 a6 show ?thesis by blast
  qed
  have conv: "\<exists>y. ?z = Finite y \<and> 0 < y \<and> \<bar>y - x / 1000\<bar> \<le> x / 1000 / 2 ^ 53"
    if "parseFloat v = Finite x \<and> 1 / 10 ^ 300 \<le> x \<and> x \<le> 10 ^ 300" for x
    using that divideBy1000_error [of x] by simp
  have nan: "parseFloat v = NaN"
    if "dropWhile isStrWhiteSpaceChar v = [] \<or>
        hd (dropWhile isStrWhiteSpaceChar v) \<notin> set ''+-.0123456789I''"
    using that by (rule parseFloat_NaN)
  note ex = parse_100 parse_100mm parse_exponent parse_negative parse_zero one_tenth
  show ?thesis
    apply (intro conjI)
    subgoal using rej by blast
    subgoal using acc by blast
    subgoal using conv by blast
    subgoal using nan by blast
    subgoal by (rule parse_100)
    subgoal by (rule parse_100mm)
    subgoal by (rule parse_exponent)
    subgoal by (rule parse_negative)
    subgoal by (rule parse_zero)
    subgoal by (rule one_tenth)
    done
qed

lemma readyTag_value:
  "readyTag = \<lparr>cvWorker = True, cvWorkerReady = True, grayscaleBuffer = None, knownMarkers = [],
      posted = [INIT], dispatched = [], tagErrors = []\<rparr>"
  by (simp add: readyTag_def handleCvWorkerMessage_def newAprilTagProcessor_def)

theorem known_marker_registration_witness:
  "tag_reachable newAprilTagProcessor \<and> cvWorker newAprilTagProcessor \<and>
   \<not> cvWorkerReady newAprilTagProcessor \<and>
   divideBy1000 (parseFloat ''100'') = js_literal (1 / 10) \<and>
   js_gt_zero (divideBy1000 (parseFloat ''100'')) \<and>
   posted (addKnownMarker ''12'' ''100'' newAprilTagProcessor) = [INIT] \<and>
   filter (addsMarker ''12'')
     (posted (handleCvWorkerMessage \<lparr>reply = INIT_DONE, returnedPixels = None\<rparr>
                (addKnownMarker ''12'' ''100'' newAprilTagProcessor))) =
     [KNOWN_MARKER_ADD ''12'' (Finite (3602879701896397 / 36028797018963968))] \<and>
   posted (addKnownMarker ''12'' ''100'' readyTag) =
     [INIT, KNOWN_MARKER_ADD ''12'' (Finite (3602879701896397 / 36028797018963968))] \<and>
   js_le_zero (parseFloat ''-5'') \<and>
   addKnownMarker ''12'' ''-5'' newAprilTagProcessor =
     newAprilTagProcessor\<lparr>tagErrors :=
       [''AprilTagProcessor: Invalid size for marker 12: -5mm. Must be positive.'']\<rparr> \<and>
   addKnownMarker ''12'' ''-5'' readyTag =
     readyTag\<lparr>tagErrors :=
       [''AprilTagProcessor: Invalid size for marker 12: -5mm. Must be positive.'']\<rparr> \<and>
   isNaN (parseFloat ''abc'') \<and>
   addKnownMarker ''12'' ''abc'' readyTag =
     readyTag\<lparr>tagErrors :=
       [''AprilTagProcessor: Invalid size for marker 12: abcmm. Must be positive.'']\<rparr>"
proof -
  let ?new = newAprilTagProcessor
  let ?tenth = "Finite (3602879701896397 / 36028797018963968)"
  have r: "tag_reachable ?new" by (rule tag_reachable.tag_init)
  have w: "cvWorker ?new" and n: "\<not> cvWorkerReady ?new"
    and pn: "posted ?new = [INIT]" and en: "tagErrors ?new = []"
    by (simp_all add: newAprilTagProcessor_def)
  have wr: "cvWorker readyTag \<and> cvWorkerReady readyTag"
    and pr: "posted readyTag = [INIT]" and er: "tagErrors readyTag = []"
    by (simp_all add: readyTag_value)
  note t100 = known_marker_registration [of "''100''" "''12''" ?new None]
  from t100 have p100: "parseFloat ''100'' = Finite 100"
    and d100: "divideBy1000 (Finite 100) = ?tenth"
    by blast+
  have z: "divideBy1000 (parseFloat ''100'') = ?tenth" unfolding p100 d100 ..
  have lit: "divideBy1000 (parseFloat ''100'') = js_literal (1 / 10)"
    unfolding p100 by (simp add: js_literal_def)
  have pos: "js_gt_zero (divideBy1000 (parseFloat ''100''))" unfolding z by simp
  from t100 pos r w n
  have a: "posted (addKnownMarker ''12'' ''100'' ?new) = posted ?new"
    and b: "filter (addsMarker ''12'')
       (posted (handleCvWorkerMessage \<lparr>reply = INIT_DONE, returnedPixels = None\<rparr>
                  (addKnownMarker ''12'' ''100'' ?new))) =
       [KNOWN_MARKER_ADD ''12'' (divideBy1000 (parseFloat ''100''))]"
    by blast+
  from known_marker_registration [of "''100''" "''12''" readyTag None] pos wr
  have c: "posted (addKnownMarker ''12'' ''100'' readyTag) =
             posted readyTag @ [KNOWN_MARKER_ADD ''12'' (divideBy1000 (parseFloat ''100''))]"
    by blast
  from known_marker_registration [of "''-5''" "''12''" ?new None]
  have m5: "parseFloat ''-5'' = Finite (- 5)" by blast
  have neg: "js_le_zero (parseFloat ''-5'')" unfolding m5 by simp
  from known_marker_registration [of "''-5''" "''12''" ?new None] neg
  have d: "addKnownMarker ''12'' ''-5'' ?new =
     ?new\<lparr>tagErrors := tagErrors ?new @
        [''AprilTagProcessor: Invalid size for marker '' @ ''12'' @ '': '' @ ''-5'' @
         ''mm. Must be positive.'']\<rparr>"
    by blast
  from known_marker_registration [of "''-5''" "''12''" readyTag None] neg
  have e: "addKnownMarker ''12'' ''-5'' readyTag =
     readyTag\<lparr>tagErrors := tagErrors readyTag @
        [''AprilTagProcessor: Invalid size for marker '' @ ''12'' @ '': '' @ ''-5'' @
         ''mm. Must be positive.'']\<rparr>"
    by blast
  have hd: "hd (dropWhile isStrWhiteSpaceChar ''abc'') \<notin> set ''+-.0123456789I''"
    by (simp add: isStrWhiteSpaceChar_def)
  from known_marker_registration [of "''abc''" "''12''" readyTag None] hd
  have abc: "parseFloat ''abc'' = NaN" by blast
  then have nan: "isNaN (parseFloat ''abc'')" by simp
  from known_marker_registration [of "''abc''" "''12''" readyTag None] nan
  have f: "addKnownMarker ''12'' ''abc'' readyTag =
     readyTag\<lparr>tagErrors := tagErrors readyTag @
        [''AprilTagProcessor: Invalid size for marker '' @ ''12'' @ '': '' @ ''abc'' @
         ''mm. Must be positive.'']\<rparr>"
    by blast
  have a': "posted (addKnownMarker ''12'' ''100'' ?new) = [INIT]"
    using a pn by simp
  have b': "filter (addsMarker ''12'')
       (posted (handleCvWorkerMessage \<lparr>reply = INIT_DONE, returnedPixels = None\<rparr>
                  (addKnownMarker ''12'' ''100'' ?new))) = [KNOWN_MARKER_ADD ''12'' ?tenth]"
    using b unfolding z .
  have c': "posted (addKnownMarker ''12'' ''100'' readyTag) = [INIT, KNOWN_MARKER_ADD ''12'' ?tenth]"
    using c unfolding z pr by simp
  have d': "addKnownMarker ''12'' ''-5'' ?new =
     ?new\<lparr>tagErrors := [''AprilTagProcessor: Invalid size for marker 12: -5mm. Must be positive.'']\<rparr>"
    using d unfolding en by simp
  have e': "addKnownMarker ''12'' ''-5'' readyTag =
     readyTag\<lparr>tagErrors := [''AprilTagProcessor: Invalid size for marker 12: -5mm. Must be positive.'']\<rparr>"
    using e unfolding er by simp
  have f': "addKnownMarker ''12'' ''abc'' readyTag =
     readyTag\<lparr>tagErrors := [''AprilTagProcessor: Invalid size for marker 12: abcmm. Must be positive.'']\<rparr>"
    using f unfolding er by simp
  from r w n lit pos a' b' c' neg d' e' nan f' show ?thesis by blast
qed

subsection \<open>Grayscale conversion\<close>

lemma typedStore_length [simp]: "length (typedStore gs j v) = length gs"
  by (simp add: typedStore_def)

lemma typedStore_nth:
  "t < length gs \<Longrightarrow> typedStore gs j v ! t = (if t = j then toUint8 v else gs ! t)"
  by (simp add: typedStore_def)

lemma grayLoop_length [simp]: "length (grayLoop f data i j gs) = length gs"
proof (induction f data i j gs rule: grayLoop.induct)
  case (1 f data i j gs)
  then show ?case by (subst grayLoop.simps) simp
qed

lemma grayLoop_nth:
  "t < length gs \<Longrightarrow>
   grayLoop f data i j gs ! t =
     (if j \<le> t \<and> i + 4 * (t - j) < length data then toUint8 (f data (i + 4 * (t - j)))
      else gs ! t)"
proof (induction f data i j gs rule: grayLoop.induct)
  case (1 f data i j gs)
  show ?case
  proof (cases "i < length data")
    case False
    then show ?thesis by (subst grayLoop.simps) simp
  next
    case True
    let ?gs1 = "typedStore gs j (f data i)"
    have t1: "t < length ?gs1" using "1.prems" by simp
    have step: "grayLoop f data i j gs = grayLoop f data (i + 4) (j + 1) ?gs1"
      using True by (subst grayLoop.simps) simp
    have ih: "grayLoop f data (i + 4) (j + 1) ?gs1 ! t =
        (if j + 1 \<le> t \<and> i + 4 + 4 * (t - (j + 1)) < length data
         then toUint8 (f data (i + 4 + 4 * (t - (j + 1)))) else ?gs1 ! t)"
      using "1.IH" [OF True t1] .
    show ?thesis
    proof (cases "t = j")
      case tj: True
      then show ?thesis
        unfolding step ih using True "1.prems" by (simp add: typedStore_nth)
    next
      case False
      show ?thesis
      proof (cases "j < t")
        case lt: True
        then have e: "i + 4 + 4 * (t - (j + 1)) = i + 4 * (t - j)" by simp
        show ?thesis
          unfolding step ih e using lt "1.prems" False by (simp add: typedStore_nth)
      next
        case ge: False
        with False have "t < j" by simp
        then show ?thesis
          unfolding step ih using "1.prems" by (simp add: typedStore_nth)
      qed
    qed
  qed
qed

lemma softwareGrayscale_nth:
  assumes "j < length gs" and "4 * j + 2 < length data"
  shows "softwareGrayscale data gs ! j =
           toUint8 (weightedSum (Finite (of_nat (unat (data ! (4 * j)))))
                                (Finite (of_nat (unat (data ! (4 * j + 1)))))
                                (Finite (of_nat (unat (data ! (4 * j + 2))))))"
  using assms by (simp add: softwareGrayscale_def grayLoop_nth luminance_def elem_def)

lemma softwareGrayscale_rest:
  assumes "j < length gs" and "length data \<le> 4 * j"
  shows "softwareGrayscale data gs ! j = gs ! j"
  using assms by (simp add: softwareGrayscale_def grayLoop_nth)

lemma toUint8_byte: "toUint8 (Finite (unsigned w)) = w"
proof -
  have u: "(unsigned w :: rat) = of_int (uint w)" by simp
  show ?thesis unfolding u by (simp add: word_of_int_uint del: of_int_uint)
qed

lemma canvasGrayscale_nth:
  assumes "j < length gs" and "4 * j < length px"
  shows "canvasGrayscale px gs ! j = px ! (4 * j)"
  using assms by (simp add: canvasGrayscale_def grayLoop_nth elem_def toUint8_byte del: toUint8.simps)

lemma workBuffer_length:
  "length (case grayscaleBuffer s of None \<Rightarrow> replicate n 0
           | Some g \<Rightarrow> if length g \<noteq> n then replicate n 0 else g) = n"
  by (simp split: option.splits)

text \<open>
  Claim C8, as the code has it. For an RGBA frame given to a ready processor with camera
  intrinsics: when the frame has a canvas and the 2D context delivers the filtered image,
  the posted buffer holds the red channel of the filtered pixels; when the frame has no
  canvas, or the canvas path throws, and a buffer is present, the posted buffer is the
  software conversion of the buffer; when the canvas path throws and there is no buffer,
  nothing is posted. In the software conversion the byte stored for pixel \<open>j\<close> is
  \<open>0.299 * R + 0.587 * G + 0.114 * B\<close> of the bytes at \<open>4j\<close>, \<open>4j + 1\<close>, \<open>4j + 2\<close>,
  evaluated in double precision and then converted to an unsigned 8-bit integer
  (truncated), not the weighted sum itself; it is the integer part of the exact weighted
  sum or one less.
\<close>

theorem grayscale_conversion:
  assumes "cvWorkerReady s" and "cvWorker s" and "cameraIntrinsics md = Some k"
    and "format img = ''RGBA''"
  shows "(\<forall>px. canvas img = Some (CanvasPixels px) \<longrightarrow>
            (\<exists>gs. aprilTag_processImage (Some img) md s =
                    (PostedFrame CanvasFilter,
                     s\<lparr>posted := posted s @
                          [PROCESS_GSFRAME gs (width img) (height img) k (timestamp md)],
                       grayscaleBuffer := None\<rparr>) \<and>
                  length gs = width img * height img \<and>
                  (\<forall>j < length gs. 4 * j < length px \<longrightarrow> gs ! j = px ! (4 * j)))) \<and>
         (\<forall>data. buffer img = Some data \<and>
                 (canvas img = Some CanvasThrows \<or> canvas img = None) \<longrightarrow>
            (\<exists>gs. aprilTag_processImage (Some img) md s =
                    (PostedFrame (if canvas img = None then Software else SoftwareFallback),
                     s\<lparr>posted := posted s @
                          [PROCESS_GSFRAME gs (width img) (height img) k (timestamp md)],
                       grayscaleBuffer := None\<rparr>) \<and>
                  length gs = width img * height img \<and>
                  (\<forall>j < length gs. 4 * j + 2 < length data \<longrightarrow>
                     gs ! j =
                       toUint8 (weightedSum (Finite (of_nat (unat (data ! (4 * j)))))
                                            (Finite (of_nat (unat (data ! (4 * j + 1)))))
                                            (Finite (of_nat (unat (data ! (4 * j + 2)))))) \<and>
                     \<lfloor>exactWeightedSum (data ! (4 * j)) (data ! (4 * j + 1)) (data ! (4 * j + 2))\<rfloor> - 1
                       \<le> uint (gs ! j) \<and>
                     uint (gs ! j) \<le>
                       \<lfloor>exactWeightedSum (data ! (4 * j)) (data ! (4 * j + 1)) (data ! (4 * j + 2))\<rfloor>))) \<and>
         (canvas img = Some CanvasThrows \<and> buffer img = None \<longrightarrow>
            fst (aprilTag_processImage (Some img) md s) = NoFallbackBuffer \<and>
            posted (snd (aprilTag_processImage (Some img) md s)) = posted s)"
proof -
  let ?n = "width img * height img"
  let ?gs0 = "case grayscaleBuffer s of None \<Rightarrow> replicate ?n 0
              | Some g \<Rightarrow> if length g \<noteq> ?n then replicate ?n 0 else g"
  have len0: "length ?gs0 = ?n" by (rule workBuffer_length)
  have a: "\<exists>gs. aprilTag_processImage (Some img) md s =
                    (PostedFrame CanvasFilter,
                     s\<lparr>posted := posted s @
                          [PROCESS_GSFRAME gs (width img) (height img) k (timestamp md)],
                       grayscaleBuffer := None\<rparr>) \<and>
                  length gs = ?n \<and>
                  (\<forall>j < length gs. 4 * j < length px \<longrightarrow> gs ! j = px ! (4 * j))"
    if c: "canvas img = Some (CanvasPixels px)" for px
  proof (intro exI [of _ "canvasGrayscale px ?gs0"] conjI allI impI)
    show "aprilTag_processImage (Some img) md s =
        (PostedFrame CanvasFilter,
         s\<lparr>posted := posted s @
              [PROCESS_GSFRAME (canvasGrayscale px ?gs0) (width img) (height img) k (timestamp md)],
           grayscaleBuffer := None\<rparr>)"
      using assms c by (simp add: aprilTag_processImage_def postFrame_def Let_def)
    show "length (canvasGrayscale px ?gs0) = ?n"
      using len0 by (simp add: canvasGrayscale_def)
    show "canvasGrayscale px ?gs0 ! j = px ! (4 * j)"
      if "j < length (canvasGrayscale px ?gs0)" "4 * j < length px" for j
      using that by (intro canvasGrayscale_nth) (simp_all add: canvasGrayscale_def)
  qed
  have b: "\<exists>gs. aprilTag_processImage (Some img) md s =
                    (PostedFrame (if canvas img = None then Software else SoftwareFallback),
                     s\<lparr>posted := posted s @
                          [PROCESS_GSFRAME gs (width img) (height img) k (timestamp md)],
                       grayscaleBuffer := None\<rparr>) \<and>
                  length gs = ?n \<and>
                  (\<forall>j < length gs. 4 * j + 2 < length data \<longrightarrow>
                     gs ! j =
                       toUint8 (weightedSum (Finite (of_nat (unat (data ! (4 * j)))))
                                            (Finite (of_nat (unat (data ! (4 * j + 1)))))
                                            (Finite (of_nat (unat (data ! (4 * j + 2)))))) \<and>
                     \<lfloor>exactWeightedSum (data ! (4 * j)) (data ! (4 * j + 1)) (data ! (4 * j + 2))\<rfloor> - 1
                       \<le> uint (gs ! j) \<and>
                     uint (gs ! j) \<le>
                       \<lfloor>exactWeightedSum (data ! (4 * j)) (data ! (4 * j + 1)) (data ! (4 * j + 2))\<rfloor>)"
    if c: "buffer img = Some data \<and> (canvas img = Some CanvasThrows \<or> canvas img = None)"
    for data
  proof -
    let ?gs = "softwareGrayscale data ?gs0"
    have r: "aprilTag_processImage (Some img) md s =
        (PostedFrame (if canvas img = None then Software else SoftwareFallback),
         s\<lparr>posted := posted s @
              [PROCESS_GSFRAME ?gs (width img) (height img) k (timestamp md)],
           grayscaleBuffer := None\<rparr>)"
      using assms c by (auto simp: aprilTag_processImage_def postFrame_def Let_def)
    have l: "length ?gs = ?n"
      using len0 by (simp add: softwareGrayscale_def)
    have e: "?gs ! j =
            toUint8 (weightedSum (Finite (of_nat (unat (data ! (4 * j)))))
                                 (Finite (of_nat (unat (data ! (4 * j + 1)))))
                                 (Finite (of_nat (unat (data ! (4 * j + 2))))))"
      if "j < length ?gs" "4 * j + 2 < length data" for j
      using that by (intro softwareGrayscale_nth) (simp_all add: softwareGrayscale_def)
    have p: "?gs ! j =
               toUint8 (weightedSum (Finite (of_nat (unat (data ! (4 * j)))))
                                    (Finite (of_nat (unat (data ! (4 * j + 1)))))
                                    (Finite (of_nat (unat (data ! (4 * j + 2)))))) \<and>
             \<lfloor>exactWeightedSum (data ! (4 * j)) (data ! (4 * j + 1)) (data ! (4 * j + 2))\<rfloor> - 1
               \<le> uint (?gs ! j) \<and>
             uint (?gs ! j) \<le>
               \<lfloor>exactWeightedSum (data ! (4 * j)) (data ! (4 * j + 1)) (data ! (4 * j + 2))\<rfloor>"
      if h: "j < length ?gs" "4 * j + 2 < length data" for j
      using stored_byte_bounds [of "data ! (4 * j)" "data ! (4 * j + 1)" "data ! (4 * j + 2)"]
      unfolding e [OF h] by (simp del: toUint8.simps)
    from r l p show ?thesis by blast
  qed
  have c: "fst (aprilTag_processImage (Some img) md s) = NoFallbackBuffer \<and>
           posted (snd (aprilTag_processImage (Some img) md s)) = posted s"
    if "canvas img = Some CanvasThrows \<and> buffer img = None"
    using assms that by (simp add: aprilTag_processImage_def Let_def)
  from a b c show ?thesis by blast
qed

lemma gray_100: "softwareGrayscale [1, 0, 0, 255] [0] = [0]"
  by code_simp

lemma gray_111: "toUint8 (weightedSum (Finite 1) (Finite 1) (Finite 1)) = 0"
  by code_simp

lemma gray_white: "toUint8 (weightedSum (Finite 255) (Finite 255) (Finite 255)) = 255"
  by code_simp

lemma two_elements: "length xs = 2 \<Longrightarrow> xs = [xs ! 0, xs ! 1]"
  by (cases xs; cases "tl xs") auto

text \<open>
  The claim as written fails: for the pixel (1, 0, 0) the buffer holds 0, the weighted sum
  is 0.299.
\<close>

theorem stored_byte_counterexample:
  "rat_of_nat (unat (softwareGrayscale [1, 0, 0, 255] [0] ! 0)) \<noteq> exactWeightedSum 1 0 0"
  by (simp add: gray_100 exactWeightedSum_def)

theorem grayscale_conversion_witness:
  "cvWorkerReady readyTag \<and> cvWorker readyTag \<and> format twoPixels = ''RGBA'' \<and>
   aprilTag_processImage (Some twoPixels)
     \<lparr>timestamp = 5, cameraIntrinsics = Some 9, viewTransformMatrix = None\<rparr> readyTag =
   (PostedFrame Software,
    readyTag\<lparr>posted := [INIT, PROCESS_GSFRAME [0, 255] 2 1 9 5], grayscaleBuffer := None\<rparr>)"
proof -
  let ?md = "\<lparr>timestamp = 5, cameraIntrinsics = Some 9, viewTransformMatrix = None\<rparr>"
  let ?data = "[1, 1, 1, 255, 255, 255, 255, 255] :: 8 word list"
  have r: "cvWorkerReady readyTag" and w: "cvWorker readyTag"
    by (simp_all add: readyTag_value)
  have i: "cameraIntrinsics ?md = Some 9" by simp
  have f: "format twoPixels = ''RGBA''" by (simp add: twoPixels_def)
  have c: "buffer twoPixels = Some ?data \<and>
           (canvas twoPixels = Some CanvasThrows \<or> canvas twoPixels = None)"
    by (simp add: twoPixels_def)
  note g = grayscale_conversion [OF r w i f, THEN conjunct2, THEN conjunct1, rule_format, OF c]
  then obtain gs where
    res: "aprilTag_processImage (Some twoPixels) ?md readyTag =
           (PostedFrame (if canvas twoPixels = None then Software else SoftwareFallback),
            readyTag\<lparr>posted := posted readyTag @
                 [PROCESS_GSFRAME gs (width twoPixels) (height twoPixels) 9 (timestamp ?md)],
              grayscaleBuffer := None\<rparr>)"
    and len: "length gs = width twoPixels * height twoPixels"
    and px: "\<And>j. j < length gs \<Longrightarrow> 4 * j + 2 < length ?data \<Longrightarrow>
               gs ! j = toUint8 (weightedSum (Finite (of_nat (unat (?data ! (4 * j)))))
                                             (Finite (of_nat (unat (?data ! (4 * j + 1)))))
                                             (Finite (of_nat (unat (?data ! (4 * j + 2))))))"
    by (elim exE conjE) (rule that, assumption, assumption, drule spec, drule mp, assumption,
        drule mp, assumption, erule conjunct1)
  from len have l2: "length gs = 2" by (simp add: twoPixels_def)
  from px [of 0] l2 have "gs ! 0 = toUint8 (weightedSum (Finite 1) (Finite 1) (Finite 1))"
    by (simp del: toUint8.simps)
  then have g0: "gs ! 0 = 0" by (simp only: gray_111)
  from px [of 1] l2 have "gs ! 1 = toUint8 (weightedSum (Finite 255) (Finite 255) (Finite 255))"
    by (simp del: toUint8.simps)
  then have g1: "gs ! 1 = 255" by (simp only: gray_white)
  from two_elements [OF l2] g0 g1 have gs: "gs = [0, 255]" by simp
  from res have "aprilTag_processImage (Some twoPixels) ?md readyTag =
     (PostedFrame Software,
      readyTag\<lparr>posted := [INIT, PROCESS_GSFRAME [0, 255] 2 1 9 5], grayscaleBuffer := None\<rparr>)"
    by (simp add: gs twoPixels_def readyTag_value)
  with r w f show ?thesis by blast
qed


section \<open>Properties of the visual-positioning processor\<close>

lemma vps_inv_init: "vps_inv (newOpenVPS a b c d e)"
  by (simp add: vps_inv_def newOpenVPS_def)

lemma find_single:
  "find P xs = Some k \<Longrightarrow> length xs \<le> 1 \<Longrightarrow> xs = [k] \<and> P k"
  by (cases xs) (auto split: if_splits)

lemma vps_inv_failed:
  "calls s = [] \<or> (\<exists>k. calls s = [k] \<and> callId k = c) \<Longrightarrow> (\<forall>k \<in> set (calls s). callId k < nextCall s)
   \<Longrightarrow> vps_inv (attemptFailed c m t s)"
  by (auto simp: vps_inv_def attemptFailed_def Let_def)

lemma vps_inv_completed:
  "calls s = [k] \<Longrightarrow> callId k = c \<Longrightarrow> callId k < nextCall s \<Longrightarrow> vps_inv (attemptCompleted c s)"
  by (auto simp: vps_inv_def attemptCompleted_def)

lemma vps_inv_processImage: "vps_inv s \<Longrightarrow> vps_inv (openVPS_processImage now ct img md s)"
  unfolding openVPS_processImage_def
  by (auto simp: vps_inv_def attemptFailed_def Let_def split: option.splits)

lemma vps_inv_blobReady: "vps_inv s \<Longrightarrow> vps_inv (blobReady c blob ct s)"
proof (cases "find (\<lambda>k. callId k = c \<and> suspended k = AwaitingBlob) (calls s)")
  case None
  assume "vps_inv s"
  with None show ?thesis by (simp add: blobReady_def)
next
  case (Some k)
  assume inv: "vps_inv s"
  from find_single [OF Some] inv have k: "calls s = [k]" "callId k = c"
    by (simp_all add: vps_inv_def)
  from inv k have lt: "\<forall>k \<in> set (calls s). callId k < nextCall s" by (simp add: vps_inv_def)
  have f: "vps_inv (attemptFailed c m t s)" for m t
    using k lt by (intro vps_inv_failed) auto
  show ?thesis
    using Some f inv k by (auto simp: blobReady_def vps_inv_def)
qed

lemma vps_inv_localizeSettled: "vps_inv s \<Longrightarrow> vps_inv (localizeSettled c out ct s)"
proof (cases "find (\<lambda>k. callId k = c \<and> suspended k = AwaitingResponse) (calls s)")
  case None
  assume "vps_inv s"
  with None show ?thesis by (simp add: localizeSettled_def)
next
  case (Some k)
  assume inv: "vps_inv s"
  from find_single [OF Some] inv have k: "calls s = [k]" "callId k = c"
    by (simp_all add: vps_inv_def)
  from inv k have lt: "callId k < nextCall s" by (simp add: vps_inv_def)
  have f: "vps_inv (attemptFailed c m t (s\<lparr>vpsErrors := x\<rparr>))" for m t x
    using k lt by (intro vps_inv_failed) auto
  have f0: "vps_inv (attemptFailed c m t s)" for m t
    using k lt by (intro vps_inv_failed) auto
  have g: "vps_inv (attemptCompleted c (s\<lparr>poseUpdates := x\<rparr>))" for x
    using k lt by (intro vps_inv_completed [of _ k]) auto
  have g0: "vps_inv (attemptCompleted c s)"
    using k lt by (intro vps_inv_completed [of _ k]) auto
  show ?thesis
    using Some f f0 g g0
    by (auto simp: localizeSettled_def split: localizeOutcome.splits option.splits pose.splits)
qed

lemma vps_inv_step: "vps_inv s \<Longrightarrow> vps_inv (vps_step e s)"
  by (cases e)
     (simp_all add: vps_inv_processImage vps_inv_blobReady vps_inv_localizeSettled,
      simp_all add: vps_inv_def setEnabled_def destroyOpenVPS_def)

lemma vps_reachable_inv: "vps_reachable s \<Longrightarrow> vps_inv s"
  by (induction rule: vps_reachable.induct) (simp_all add: vps_inv_init vps_inv_step)

lemma gate_closed:
  "\<not> (isEnabled s \<and> mapServer s \<and>
       (\<exists>img data. imageData' = Some img \<and> buffer img = Some data \<and> format img = ''RGBA'') \<and>
       eligible now s)
   \<Longrightarrow> openVPS_processImage now ct imageData' md s = s"
  by (auto simp: openVPS_processImage_def eligible_def split: option.splits)

lemma failed_errors:
  "vpsErrors (attemptFailed c m t s) \<noteq> vpsErrors s"
  "\<exists>xs. vpsErrors (attemptFailed c m t s) = vpsErrors s @ xs"
  by (simp_all add: attemptFailed_def Let_def)

lemma completed_fields:
  "vpsErrors (attemptCompleted c s) = vpsErrors s"
  "lastSendTime (attemptCompleted c s) = lastSendTime s"
  "interval (attemptCompleted c s) = interval s"
  by (simp_all add: attemptCompleted_def)

lemma interval_step: "interval (vps_step e s) = interval s"
  by (cases e)
     (auto simp: openVPS_processImage_def blobReady_def localizeSettled_def setEnabled_def
        destroyOpenVPS_def attemptFailed_def attemptCompleted_def Let_def
        split: option.splits localizeOutcome.splits pose.splits)

lemma errors_grow_step: "\<exists>xs. vpsErrors (vps_step e s) = vpsErrors s @ xs"
  by (cases e)
     (auto simp: openVPS_processImage_def blobReady_def localizeSettled_def setEnabled_def
        destroyOpenVPS_def attemptFailed_def attemptCompleted_def Let_def
        split: option.splits localizeOutcome.splits pose.splits)

lemma errors_grow_run: "\<exists>xs. vpsErrors (vps_run es s) = vpsErrors s @ xs"
proof (induction es arbitrary: s)
  case Nil
  then show ?case by simp
next
  case (Cons e es)
  from errors_grow_step [of e s] obtain xs where a: "vpsErrors (vps_step e s) = vpsErrors s @ xs"
    by blast
  from Cons.IH [of "vps_step e s"] obtain ys where
    "vpsErrors (vps_run es (vps_step e s)) = vpsErrors (vps_step e s) @ ys" by blast
  with a show ?case by simp
qed

lemma quiet_completion:
  "isCompletion e \<Longrightarrow> vpsErrors (vps_step e s) = vpsErrors s
   \<Longrightarrow> lastSendTime (vps_step e s) = lastSendTime s"
  by (cases e)
     (auto simp: blobReady_def localizeSettled_def attemptFailed_def attemptCompleted_def Let_def
        split: option.splits localizeOutcome.splits pose.splits if_splits)

lemma quiet_run:
  "\<forall>e \<in> set es. isCompletion e \<Longrightarrow> vpsErrors (vps_run es s) = vpsErrors s
   \<Longrightarrow> lastSendTime (vps_run es s) = lastSendTime s \<and> interval (vps_run es s) = interval s"
proof (induction es arbitrary: s)
  case Nil
  then show ?case by simp
next
  case (Cons e es)
  let ?s1 = "vps_step e s"
  from errors_grow_step [of e s] obtain xs where a: "vpsErrors ?s1 = vpsErrors s @ xs" by blast
  from errors_grow_run [of es ?s1] obtain ys where
    b: "vpsErrors (vps_run es ?s1) = vpsErrors ?s1 @ ys" by blast
  from Cons.prems(2) a b have "xs = []" "ys = []" by simp_all
  with a b have e1: "vpsErrors ?s1 = vpsErrors s" and e2: "vpsErrors (vps_run es ?s1) = vpsErrors ?s1"
    by simp_all
  from Cons.prems(1) have c: "isCompletion e" and rest: "\<forall>e \<in> set es. isCompletion e" by simp_all
  from Cons.IH [OF rest e2] quiet_completion [OF c e1] interval_step [of e s]
  show ?case by simp
qed

lemma accepted_time:
  "openVPS_processImage now ct img md s \<noteq> s
   \<Longrightarrow> vpsErrors (openVPS_processImage now ct img md s) = vpsErrors s
   \<Longrightarrow> lastSendTime (openVPS_processImage now ct img md s) = now"
  by (auto simp: openVPS_processImage_def attemptFailed_def Let_def split: option.splits if_splits)

text \<open>
  Claim C5. A call of \<open>processImage\<close> changes nothing, and so issues no request, unless
  the processor is enabled with a map server, the frame has a buffer in format RGBA, at
  least \<open>interval\<close> milliseconds have passed since \<open>lastSendTime\<close>, and \<open>isBusy\<close> is
  false; the call itself never issues the request (only its continuation after \<open>toBlob\<close>
  does). In every reachable state at most one call is in flight and at most one request
  is outstanding. When a call has passed the gate at time \<open>now\<close> and no error has been
  logged since, a second call less than \<open>interval\<close> after it changes nothing, whatever
  continuations of the first call have run in between.
\<close>

theorem single_outstanding_request:
  assumes "vps_reachable s"
  shows "(\<not> (isEnabled s \<and> mapServer s \<and>
              (\<exists>img data. imageData' = Some img \<and> buffer img = Some data \<and> format img = ''RGBA'') \<and>
              interval s \<le> now - lastSendTime s \<and> \<not> isBusy s)
            \<longrightarrow> openVPS_processImage now ct imageData' md s = s) \<and>
         requests (openVPS_processImage now ct imageData' md s) = requests s \<and>
         length (calls s) \<le> 1 \<and> length (outstanding s) \<le> 1 \<and>
         (\<forall>es now2 ct2 img2 md2.
            openVPS_processImage now ct imageData' md s \<noteq> s \<and>
            (\<forall>e \<in> set es. isCompletion e) \<and>
            vpsErrors (vps_run es (openVPS_processImage now ct imageData' md s)) = vpsErrors s \<and>
            now2 - now < interval s
            \<longrightarrow> openVPS_processImage now2 ct2 img2 md2
                   (vps_run es (openVPS_processImage now ct imageData' md s)) =
                 vps_run es (openVPS_processImage now ct imageData' md s))"
proof -
  let ?s1 = "openVPS_processImage now ct imageData' md s"
  have a: "?s1 = s"
    if "\<not> (isEnabled s \<and> mapServer s \<and>
              (\<exists>img data. imageData' = Some img \<and> buffer img = Some data \<and> format img = ''RGBA'') \<and>
              interval s \<le> now - lastSendTime s \<and> \<not> isBusy s)"
    using that by (intro gate_closed) (auto simp: eligible_def)
  have b: "requests ?s1 = requests s"
    by (auto simp: openVPS_processImage_def attemptFailed_def Let_def split: option.splits)
  from vps_reachable_inv [OF assms] have c: "length (calls s) \<le> 1"
    by (simp add: vps_inv_def)
  have "length (outstanding s) \<le> length (calls s)"
    by (simp add: outstanding_def)
  with c have d: "length (outstanding s) \<le> 1" by simp
  have e: "openVPS_processImage now2 ct2 img2 md2 (vps_run es ?s1) = vps_run es ?s1"
    if h: "?s1 \<noteq> s \<and> (\<forall>e \<in> set es. isCompletion e) \<and>
           vpsErrors (vps_run es ?s1) = vpsErrors s \<and> now2 - now < interval s"
    for es now2 ct2 img2 md2
  proof -
    from errors_grow_step [of "ProcessImageCalled now ct imageData' md" s]
    obtain xs where x: "vpsErrors ?s1 = vpsErrors s @ xs" by auto
    from errors_grow_run [of es ?s1] obtain ys where
      y: "vpsErrors (vps_run es ?s1) = vpsErrors ?s1 @ ys" by blast
    from h x y have "xs = []" "ys = []" by simp_all
    with x y have e1: "vpsErrors ?s1 = vpsErrors s" and e2: "vpsErrors (vps_run es ?s1) = vpsErrors ?s1"
      by simp_all
    from h have ne: "?s1 \<noteq> s" by blast
    have t1: "lastSendTime ?s1 = now" by (rule accepted_time [OF ne e1])
    have i1: "interval ?s1 = interval s"
      using interval_step [of "ProcessImageCalled now ct imageData' md" s] by simp
    from h have comp: "\<forall>e \<in> set es. isCompletion e" by blast
    from quiet_run [OF comp e2] t1 i1
    have "lastSendTime (vps_run es ?s1) = now" "interval (vps_run es ?s1) = interval s"
      by simp_all
    with h have "\<not> eligible now2 (vps_run es ?s1)" by (simp add: eligible_def)
    then show ?thesis by (intro gate_closed) blast
  qed
  from a b c d e show ?thesis by blast
qed

lemma vps_reachable_run: "vps_reachable s \<Longrightarrow> vps_reachable (vps_run es s)"
  by (induction es arbitrary: s) (simp_all add: vps_reachable.vps_next)

lemma thirdAttempt_value:
  "thirdAttempt =
     \<lparr>interval = 5000, maxRetries = 2, retryDelay = 1000, onPoseUpdate = True, isEnabled = True,
      mapServer = True, isBusy = True, lastSendTime = 12200, retryCount = 2,
      calls = [\<lparr>callId = 2, suspended = AwaitingResponse, callMetadata = poseMetadata\<rparr>],
      nextCall = 3, requests = [0, 1, 2], poseUpdates = [],
      vpsErrors = [''Error during image processing or localization: network'',
                   ''Error during image processing or localization: network'']\<rparr>"
  by (simp add: thirdAttempt_def newOpenVPS_def openVPS_processImage_def blobReady_def
        localizeSettled_def attemptFailed_def imageDataFits_def rgbaFrame_def poseMetadata_def
        Let_def)

lemma failed_fields:
  "retryCount (attemptFailed c m t s) = retryCount s + 1"
  "isBusy (attemptFailed c m t s) = False"
  "interval (attemptFailed c m t s) = interval s"
  "lastSendTime (attemptFailed c m t s) =
     (if retryCount s + 1 \<le> maxRetries s then t - interval s + retryDelay s else t)"
  by (simp_all add: attemptFailed_def Let_def)

lemma fails_localize:
  assumes "attemptFails (LocalizeSettled c out ct) s"
  shows "(\<exists>m. out = LocalizeRejects m) \<or>
         (\<exists>r x. out = LocalizeResolves (Some r) \<and> pose r = Some (InvalidPose x) \<and>
                js_gt_zero (serverConfidence r))"
proof (cases out)
  case (LocalizeRejects m)
  then show ?thesis by simp
next
  case (LocalizeResolves resp)
  show ?thesis
  proof (cases resp)
    case None
    with assms LocalizeResolves show ?thesis by (simp split: option.splits)
  next
    case (Some r)
    show ?thesis
    proof (cases "pose r")
      case None
      with assms LocalizeResolves Some show ?thesis by (simp split: option.splits)
    next
      case p: (Some p)
      with assms LocalizeResolves Some show ?thesis
        by (cases p) (simp_all split: option.splits)
    qed
  qed
qed

lemma fails_step:
  assumes "attemptFails e s"
  shows "\<exists>c m s0. vps_step e s = attemptFailed c m (catchTimeOf e) s0 \<and>
           retryCount s0 = retryCount s \<and> maxRetries s0 = maxRetries s \<and>
           interval s0 = interval s \<and> retryDelay s0 = retryDelay s"
proof (cases e)
  case (ProcessImageCalled now ct img md)
  with assms show ?thesis
    by (auto simp: openVPS_processImage_def Let_def split: option.splits
          intro!: exI [of _ "nextCall s"] exI [of _ "''ImageData''"]
                  exI [of _ "s\<lparr>isBusy := True, lastSendTime := now\<rparr>"])
next
  case (BlobReady c blob ct)
  with assms show ?thesis
    by (auto simp: blobReady_def split: option.splits)
next
  case e: (LocalizeSettled c out ct)
  from assms e obtain k where
    k: "find (\<lambda>k. callId k = c \<and> suspended k = AwaitingResponse) (calls s) = Some k"
    by (auto split: option.splits)
  from assms e fails_localize [of c out ct s]
  consider m where "out = LocalizeRejects m"
    | r x where "out = LocalizeResolves (Some r)" "pose r = Some (InvalidPose x)"
        "js_gt_zero (serverConfidence r)"
    by blast
  then show ?thesis
  proof cases
    case 1
    with e k show ?thesis by (auto simp: localizeSettled_def)
  next
    case 2
    let ?s0 = "s\<lparr>vpsErrors := vpsErrors s @ [''Invalid pose format from server response.'']\<rparr>"
    from 2 e k have "vps_step e s =
        attemptFailed c ''Invalid pose format from server.'' (catchTimeOf e) ?s0"
      by (simp add: localizeSettled_def)
    moreover have "retryCount ?s0 = retryCount s \<and> maxRetries ?s0 = maxRetries s \<and>
           interval ?s0 = interval s \<and> retryDelay ?s0 = retryDelay s"
      by simp
    ultimately show ?thesis by blast
  qed
next
  case (SetEnabled x)
  with assms show ?thesis by simp
next
  case DestroyVPS
  with assms show ?thesis by simp
qed

lemma completed_count: "retryCount (attemptCompleted c s) = 0"
  by (simp add: attemptCompleted_def)

lemma not_fails_step:
  assumes "\<not> attemptFails e s"
  shows "retryCount (vps_step e s) = retryCount s \<or> retryCount (vps_step e s) = 0"
proof (cases e)
  case (ProcessImageCalled now ct img md)
  with assms show ?thesis
    by (auto simp: openVPS_processImage_def Let_def split: option.splits)
next
  case (BlobReady c blob ct)
  with assms show ?thesis
    by (auto simp: blobReady_def split: option.splits)
next
  case e: (LocalizeSettled c out ct)
  show ?thesis
  proof (cases "find (\<lambda>k. callId k = c \<and> suspended k = AwaitingResponse) (calls s)")
    case None
    with e show ?thesis by (simp add: localizeSettled_def)
  next
    case k: (Some k)
    show ?thesis
    proof (cases out)
      case (LocalizeRejects m)
      with assms e k show ?thesis by simp
    next
      case o: (LocalizeResolves resp)
      show ?thesis
      proof (cases resp)
        case None
        with e k o show ?thesis by (simp add: localizeSettled_def completed_count)
      next
        case r: (Some r)
        show ?thesis
        proof (cases "pose r")
          case None
          with e k o r show ?thesis by (simp add: localizeSettled_def completed_count)
        next
          case p: (Some p)
          with assms e k o r show ?thesis
            by (cases p) (simp_all add: localizeSettled_def completed_count)
        qed
      qed
    qed
  qed
next
  case (SetEnabled x)
  then show ?thesis by (simp add: setEnabled_def)
next
  case DestroyVPS
  then show ?thesis by (simp add: destroyOpenVPS_def)
qed

text \<open>
  Claim C6, as the code has it. An attempt fails when a statement of the \<open>try\<close> block
  throws (\<open>attemptFails\<close>); \<open>t\<close> is the time read in the \<open>catch\<close> block. Every failing
  attempt adds one to \<open>retryCount\<close> and clears \<open>isBusy\<close>. While the new count is at most
  \<open>maxRetries\<close>, the processor is eligible again exactly from \<open>t + retryDelay\<close>; there
  is an eligible time before \<open>t + interval\<close> exactly when \<open>retryDelay < interval\<close>. Once
  the count exceeds \<open>maxRetries\<close> the processor is eligible again exactly from
  \<open>t + interval\<close>. No other event makes \<open>retryCount\<close> grow, and a response with a usable
  pose and a confidence above 0 resets it to 0.
\<close>

theorem retry_backoff:
  "(attemptFails e s \<longrightarrow>
      retryCount (vps_step e s) = retryCount s + 1 \<and>
      \<not> isBusy (vps_step e s) \<and>
      (retryCount s + 1 \<le> maxRetries s \<longrightarrow>
         (\<forall>now. eligible now (vps_step e s) \<longleftrightarrow> catchTimeOf e + retryDelay s \<le> now) \<and>
         ((\<exists>now. now < catchTimeOf e + interval s \<and> eligible now (vps_step e s)) \<longleftrightarrow>
            retryDelay s < interval s)) \<and>
      (maxRetries s < retryCount s + 1 \<longrightarrow>
         (\<forall>now. eligible now (vps_step e s) \<longleftrightarrow> catchTimeOf e + interval s \<le> now))) \<and>
   (\<not> attemptFails e s \<longrightarrow>
      retryCount (vps_step e s) = retryCount s \<or> retryCount (vps_step e s) = 0) \<and>
   (find (\<lambda>k. callId k = c \<and> suspended k = AwaitingResponse) (calls s) \<noteq> None \<and>
    js_gt_zero confidence \<and> (p = NestedArray x \<or> p = FlatArray16 x) \<longrightarrow>
      retryCount (localizeSettled c
         (LocalizeResolves (Some \<lparr>pose = Some p, serverConfidence = confidence\<rparr>)) t s) = 0)"
proof -
  let ?s' = "vps_step e s"
  let ?t = "catchTimeOf e"
  have a: "retryCount ?s' = retryCount s + 1 \<and> \<not> isBusy ?s' \<and>
      (retryCount s + 1 \<le> maxRetries s \<longrightarrow>
         (\<forall>now. eligible now ?s' \<longleftrightarrow> ?t + retryDelay s \<le> now) \<and>
         ((\<exists>now. now < ?t + interval s \<and> eligible now ?s') \<longleftrightarrow> retryDelay s < interval s)) \<and>
      (maxRetries s < retryCount s + 1 \<longrightarrow>
         (\<forall>now. eligible now ?s' \<longleftrightarrow> ?t + interval s \<le> now))"
    if f: "attemptFails e s"
  proof -
    from fails_step [OF f] obtain c m s0 where
      s': "?s' = attemptFailed c m ?t s0" and
      eqs: "retryCount s0 = retryCount s" "maxRetries s0 = maxRetries s"
           "interval s0 = interval s" "retryDelay s0 = retryDelay s"
      by blast
    have el: "eligible now ?s' \<longleftrightarrow>
        (if retryCount s + 1 \<le> maxRetries s then ?t + retryDelay s \<le> now
         else ?t + interval s \<le> now)" for now
      unfolding s' eligible_def by (auto simp: failed_fields eqs)
    have ex: "(\<exists>now. now < ?t + interval s \<and> ?t + retryDelay s \<le> now) \<longleftrightarrow>
              retryDelay s < interval s"
    proof
      assume "\<exists>now. now < ?t + interval s \<and> ?t + retryDelay s \<le> now"
      then show "retryDelay s < interval s" by auto
    next
      assume "retryDelay s < interval s"
      then have "?t + retryDelay s < ?t + interval s \<and> ?t + retryDelay s \<le> ?t + retryDelay s"
        by simp
      then show "\<exists>now. now < ?t + interval s \<and> ?t + retryDelay s \<le> now" by blast
    qed
    have 1: "retryCount ?s' = retryCount s + 1" "\<not> isBusy ?s'"
      unfolding s' by (simp_all add: failed_fields eqs)
    from 1 el ex show ?thesis by simp
  qed
  have b: "retryCount ?s' = retryCount s \<or> retryCount ?s' = 0" if "\<not> attemptFails e s"
    using that by (rule not_fails_step)
  have c: "retryCount (localizeSettled c
         (LocalizeResolves (Some \<lparr>pose = Some p, serverConfidence = confidence\<rparr>)) t s) = 0"
    if "find (\<lambda>k. callId k = c \<and> suspended k = AwaitingResponse) (calls s) \<noteq> None \<and>
        js_gt_zero confidence \<and> (p = NestedArray x \<or> p = FlatArray16 x)"
    using that by (auto simp: localizeSettled_def attemptCompleted_def)
  from a b c show ?thesis by blast
qed

lemma slowRetry_value:
  "slowRetry =
     \<lparr>interval = 5000, maxRetries = 3, retryDelay = 10000, onPoseUpdate = True, isEnabled = True,
      mapServer = True, isBusy = True, lastSendTime = 10000, retryCount = 0,
      calls = [\<lparr>callId = 0, suspended = AwaitingResponse, callMetadata = poseMetadata\<rparr>],
      nextCall = 1, requests = [0], poseUpdates = [], vpsErrors = []\<rparr>"
  by (simp add: slowRetry_def newOpenVPS_def openVPS_processImage_def blobReady_def
        imageDataFits_def rgbaFrame_def poseMetadata_def Let_def)

text \<open>
  Claim C6 fails as written: with \<open>retryDelay = 10000\<close> and \<open>interval = 5000\<close>, a request
  sent at 10000 and rejected at 10100 is under \<open>maxRetries\<close>, but the retry is not
  eligible at 15000 (an interval after the send) nor at 15100 (an interval after the
  failure), only from 20100.
\<close>

theorem retry_not_sooner_counterexample:
  "interval slowRetry = 5000 \<and> lastSendTime slowRetry = 10000 \<and> maxRetries slowRetry = 3 \<and>
   attemptFails (LocalizeSettled 0 (LocalizeRejects ''network'') 10100) slowRetry \<and>
   retryCount (vps_step (LocalizeSettled 0 (LocalizeRejects ''network'') 10100) slowRetry) = 1 \<and>
   \<not> eligible 15000 (vps_step (LocalizeSettled 0 (LocalizeRejects ''network'') 10100) slowRetry) \<and>
   \<not> eligible 15100 (vps_step (LocalizeSettled 0 (LocalizeRejects ''network'') 10100) slowRetry) \<and>
   \<not> eligible 20099 (vps_step (LocalizeSettled 0 (LocalizeRejects ''network'') 10100) slowRetry) \<and>
   eligible 20100 (vps_step (LocalizeSettled 0 (LocalizeRejects ''network'') 10100) slowRetry)"
  by (simp add: slowRetry_value localizeSettled_def attemptFailed_def eligible_def Let_def)

lemma firstAttempt_value:
  "firstAttempt =
     \<lparr>interval = 5000, maxRetries = 2, retryDelay = 1000, onPoseUpdate = True, isEnabled = True,
      mapServer = True, isBusy = True, lastSendTime = 10000, retryCount = 0,
      calls = [\<lparr>callId = 0, suspended = AwaitingResponse, callMetadata = poseMetadata\<rparr>],
      nextCall = 1, requests = [0], poseUpdates = [], vpsErrors = []\<rparr>"
  by (simp add: firstAttempt_def newOpenVPS_def openVPS_processImage_def blobReady_def
        imageDataFits_def rgbaFrame_def poseMetadata_def Let_def)

theorem retry_backoff_witness:
  "attemptFails (LocalizeSettled 0 (LocalizeRejects ''network'') 10100) firstAttempt \<and>
   retryCount (vps_step (LocalizeSettled 0 (LocalizeRejects ''network'') 10100) firstAttempt) = 1 \<and>
   \<not> eligible 11099 (vps_step (LocalizeSettled 0 (LocalizeRejects ''network'') 10100) firstAttempt) \<and>
   eligible 11100 (vps_step (LocalizeSettled 0 (LocalizeRejects ''network'') 10100) firstAttempt) \<and>
   attemptFails (LocalizeSettled 2 (LocalizeRejects ''network'') 12300) thirdAttempt \<and>
   maxRetries thirdAttempt = 2 \<and> retryCount thirdAttempt = 2 \<and>
   retryCount (vps_step (LocalizeSettled 2 (LocalizeRejects ''network'') 12300) thirdAttempt) = 3 \<and>
   \<not> eligible 13300 (vps_step (LocalizeSettled 2 (LocalizeRejects ''network'') 12300) thirdAttempt) \<and>
   \<not> eligible 17299 (vps_step (LocalizeSettled 2 (LocalizeRejects ''network'') 12300) thirdAttempt) \<and>
   eligible 17300 (vps_step (LocalizeSettled 2 (LocalizeRejects ''network'') 12300) thirdAttempt) \<and>
   retryCount (localizeSettled 2
      (LocalizeResolves (Some \<lparr>pose = Some (FlatArray16 7), serverConfidence = Finite 1\<rparr>))
      12300 thirdAttempt) = 0"
proof -
  let ?e1 = "LocalizeSettled 0 (LocalizeRejects ''network'') 10100"
  let ?e3 = "LocalizeSettled 2 (LocalizeRejects ''network'') 12300"
  have f1: "attemptFails ?e1 firstAttempt" by (simp add: firstAttempt_value)
  have v1: "maxRetries firstAttempt = 2" "retryCount firstAttempt = 0"
    "retryDelay firstAttempt = 1000"
    by (simp_all add: firstAttempt_value)
  from retry_backoff [of ?e1 firstAttempt] f1 v1
  have a: "retryCount (vps_step ?e1 firstAttempt) = 1"
    and b: "\<forall>now. eligible now (vps_step ?e1 firstAttempt) \<longleftrightarrow> 10100 + 1000 \<le> now"
    by simp_all
  have f3: "attemptFails ?e3 thirdAttempt" by (simp add: thirdAttempt_value)
  have v3: "maxRetries thirdAttempt = 2" "retryCount thirdAttempt = 2" "interval thirdAttempt = 5000"
    by (simp_all add: thirdAttempt_value)
  from retry_backoff [of ?e3 thirdAttempt] f3 v3
  have c: "retryCount (vps_step ?e3 thirdAttempt) = 3"
    and d: "\<forall>now. eligible now (vps_step ?e3 thirdAttempt) \<longleftrightarrow> 12300 + 5000 \<le> now"
    by simp_all
  have k: "find (\<lambda>k. callId k = 2 \<and> suspended k = AwaitingResponse) (calls thirdAttempt) \<noteq> None"
    by (simp add: thirdAttempt_value)
  have p: "js_gt_zero (Finite 1)" by simp
  from retry_backoff [of _ thirdAttempt 2 "Finite 1" "FlatArray16 7" 7 12300] k p
  have e: "retryCount (localizeSettled 2
      (LocalizeResolves (Some \<lparr>pose = Some (FlatArray16 7), serverConfidence = Finite 1\<rparr>))
      12300 thirdAttempt) = 0"
    by blast
  from f1 a b f3 v3 c d e show ?thesis by simp
qed

lemma secondAttempt_value:
  "secondAttempt =
     \<lparr>interval = 5000, maxRetries = 3, retryDelay = 1000, onPoseUpdate = True, isEnabled = True,
      mapServer = True, isBusy = True, lastSendTime = 11100, retryCount = 1,
      calls = [\<lparr>callId = 1, suspended = AwaitingResponse, callMetadata = poseMetadata\<rparr>],
      nextCall = 2, requests = [0, 1], poseUpdates = [],
      vpsErrors = [''Error during image processing or localization: network'']\<rparr>"
  by (simp add: secondAttempt_def defaultOpenVPS_def newOpenVPS_def openVPS_processImage_def
        blobReady_def localizeSettled_def attemptFailed_def imageDataFits_def rgbaFrame_def
        poseMetadata_def Let_def)

text \<open>
  Claim C7 fails as written: a response with confidence 0 to a retry (\<open>retryCount = 1\<close>)
  does not increment \<open>retryCount\<close> and does not move \<open>lastSendTime\<close>; the processor is
  not eligible \<open>retryDelay\<close> after the response.
\<close>

theorem low_confidence_counterexample:
  "retryCount (localizeSettled 1 zeroConfidence 11200 secondAttempt) \<noteq> retryCount secondAttempt + 1 \<and>
   lastSendTime (localizeSettled 1 zeroConfidence 11200 secondAttempt) = lastSendTime secondAttempt \<and>
   \<not> eligible (11200 + retryDelay secondAttempt) (localizeSettled 1 zeroConfidence 11200 secondAttempt)"
  by (simp add: secondAttempt_value zeroConfidence_def localizeSettled_def attemptCompleted_def
        eligible_def)

text \<open>
  Claim C7, as the code has it. A response that is missing, has no pose, or has a
  confidence that is not above 0 ends the attempt like a success: \<open>retryCount\<close> is reset
  to 0, \<open>lastSendTime\<close> stays at the time of sending (the next request waits for the full
  interval), \<open>isBusy\<close> is cleared, no error is logged and the pose-update callback is not
  invoked.
\<close>

theorem low_confidence_no_fix:
  assumes "find (\<lambda>k. callId k = c \<and> suspended k = AwaitingResponse) (calls s) = Some k"
    and "response = None \<or>
         (\<exists>r. response = Some r \<and> (pose r = None \<or> \<not> js_gt_zero (serverConfidence r)))"
  shows "localizeSettled c (LocalizeResolves response) t s = attemptCompleted c s \<and>
         retryCount (localizeSettled c (LocalizeResolves response) t s) = 0 \<and>
         lastSendTime (localizeSettled c (LocalizeResolves response) t s) = lastSendTime s \<and>
         \<not> isBusy (localizeSettled c (LocalizeResolves response) t s) \<and>
         vpsErrors (localizeSettled c (LocalizeResolves response) t s) = vpsErrors s \<and>
         poseUpdates (localizeSettled c (LocalizeResolves response) t s) = poseUpdates s"
proof -
  have "localizeSettled c (LocalizeResolves response) t s = attemptCompleted c s"
    using assms by (auto simp: localizeSettled_def split: option.splits)
  then show ?thesis by (simp add: attemptCompleted_def)
qed

theorem low_confidence_no_fix_witness:
  "find (\<lambda>k. callId k = 1 \<and> suspended k = AwaitingResponse) (calls secondAttempt) =
     Some \<lparr>callId = 1, suspended = AwaitingResponse, callMetadata = poseMetadata\<rparr> \<and>
   \<not> js_gt_zero (Finite 0) \<and>
   retryCount (localizeSettled 1 zeroConfidence 11200 secondAttempt) = 0 \<and>
   lastSendTime (localizeSettled 1 zeroConfidence 11200 secondAttempt) = 11100 \<and>
   vpsErrors (localizeSettled 1 zeroConfidence 11200 secondAttempt) = vpsErrors secondAttempt \<and>
   poseUpdates (localizeSettled 1 zeroConfidence 11200 secondAttempt) = []"
proof -
  let ?r = "\<lparr>pose = Some (FlatArray16 7), serverConfidence = Finite 0\<rparr>"
  have f: "find (\<lambda>k. callId k = 1 \<and> suspended k = AwaitingResponse) (calls secondAttempt) =
     Some \<lparr>callId = 1, suspended = AwaitingResponse, callMetadata = poseMetadata\<rparr>"
    by (simp add: secondAttempt_value)
  have low: "Some ?r = None \<or>
     (\<exists>r. Some ?r = Some r \<and> (pose r = None \<or> \<not> js_gt_zero (serverConfidence r)))"
    by simp
  from low_confidence_no_fix [OF f low, of 11200]
  have "retryCount (localizeSettled 1 zeroConfidence 11200 secondAttempt) = 0"
    and "lastSendTime (localizeSettled 1 zeroConfidence 11200 secondAttempt) = lastSendTime secondAttempt"
    and "vpsErrors (localizeSettled 1 zeroConfidence 11200 secondAttempt) = vpsErrors secondAttempt"
    and "poseUpdates (localizeSettled 1 zeroConfidence 11200 secondAttempt) = poseUpdates secondAttempt"
    by (simp_all add: zeroConfidence_def attemptCompleted_def)
  with f show ?thesis by (simp add: secondAttempt_value)
qed

lemma firstCall_value:
  "firstCall =
     \<lparr>interval = 5000, maxRetries = 3, retryDelay = 1000, onPoseUpdate = True, isEnabled = True,
      mapServer = True, isBusy = True, lastSendTime = 10000, retryCount = 0,
      calls = [\<lparr>callId = 0, suspended = AwaitingBlob, callMetadata = poseMetadata\<rparr>],
      nextCall = 1, requests = [], poseUpdates = [], vpsErrors = []\<rparr>"
  by (simp add: firstCall_def defaultOpenVPS_def newOpenVPS_def openVPS_processImage_def
        imageDataFits_def rgbaFrame_def Let_def)

lemma firstCall_request:
  "vps_run [BlobReady 0 True 10050] firstCall =
     firstCall\<lparr>requests := [0],
       calls := [\<lparr>callId = 0, suspended = AwaitingResponse, callMetadata = poseMetadata\<rparr>]\<rparr>"
  by (simp add: firstCall_value blobReady_def poseMetadata_def)

theorem single_outstanding_request_witness:
  "vps_reachable defaultOpenVPS \<and>
   firstCall \<noteq> defaultOpenVPS \<and>
   requests (vps_run [BlobReady 0 True 10050] firstCall) = [0] \<and>
   openVPS_processImage 12000 12000 (Some rgbaFrame) poseMetadata
     (vps_run [BlobReady 0 True 10050] firstCall) = vps_run [BlobReady 0 True 10050] firstCall \<and>
   openVPS_processImage 10000 10000 (Some (rgbaFrame\<lparr>format := ''GRAY''\<rparr>)) poseMetadata defaultOpenVPS =
     defaultOpenVPS"
proof -
  let ?es = "[BlobReady 0 True 10050]"
  have r: "vps_reachable defaultOpenVPS"
    unfolding defaultOpenVPS_def by (rule vps_reachable.vps_init)
  have ne: "firstCall \<noteq> defaultOpenVPS"
  proof
    assume "firstCall = defaultOpenVPS"
    then have "isBusy firstCall = isBusy defaultOpenVPS" by simp
    then show False by (simp add: firstCall_value defaultOpenVPS_def newOpenVPS_def)
  qed
  have rq: "requests (vps_run ?es firstCall) = [0]"
    unfolding firstCall_request by simp
  have quiet: "vpsErrors (vps_run ?es firstCall) = vpsErrors defaultOpenVPS"
    unfolding firstCall_request by (simp add: firstCall_value defaultOpenVPS_def newOpenVPS_def)
  have comp: "\<forall>e \<in> set ?es. isCompletion e" by simp
  have close: "(12000 :: int) - 10000 < interval defaultOpenVPS"
    by (simp add: defaultOpenVPS_def newOpenVPS_def)
  from single_outstanding_request [OF r, of "Some rgbaFrame" 10000 10000 poseMetadata]
  have "\<forall>es now2 ct2 img2 md2.
            firstCall \<noteq> defaultOpenVPS \<and> (\<forall>e \<in> set es. isCompletion e) \<and>
            vpsErrors (vps_run es firstCall) = vpsErrors defaultOpenVPS \<and>
            now2 - 10000 < interval defaultOpenVPS
            \<longrightarrow> openVPS_processImage now2 ct2 img2 md2 (vps_run es firstCall) = vps_run es firstCall"
    unfolding firstCall_def by blast
  with ne comp quiet close
  have second: "openVPS_processImage 12000 12000 (Some rgbaFrame) poseMetadata (vps_run ?es firstCall) =
      vps_run ?es firstCall"
    by blast
  have "\<not> (isEnabled defaultOpenVPS \<and> mapServer defaultOpenVPS \<and>
           (\<exists>img data. Some (rgbaFrame\<lparr>format := ''GRAY''\<rparr>) = Some img \<and> buffer img = Some data \<and>
              format img = ''RGBA'') \<and>
           interval defaultOpenVPS \<le> 10000 - lastSendTime defaultOpenVPS \<and> \<not> isBusy defaultOpenVPS)"
    by simp
  with single_outstanding_request [OF r, of "Some (rgbaFrame\<lparr>format := ''GRAY''\<rparr>)" 10000 10000 poseMetadata]
  have gray: "openVPS_processImage 10000 10000 (Some (rgbaFrame\<lparr>format := ''GRAY''\<rparr>)) poseMetadata
      defaultOpenVPS = defaultOpenVPS"
    by blast
  from r ne rq second gray show ?thesis by blast
qed


section \<open>Properties of the origin anchor store\<close>

text \<open>
  Claim C9 fails as written: with seven anchors stored, the newest of them being the
  origin anchor persisted before, persisting a new origin anchor deletes that one and
  keeps the oldest; the store does not end with the seven most recent handles.
\<close>

theorem oldest_not_evicted_counterexample:
  "persistentAnchors (fullStore (Some ''a7'')) =
     Some [''a1'', ''a2'', ''a3'', ''a4'', ''a5'', ''a6'', ''a7''] \<and>
   persistentAnchors (setOriginAnchor reliable (Some (Some newAnchor)) (fullStore (Some ''a7''))) =
     Some [''a1'', ''a2'', ''a3'', ''a4'', ''a5'', ''a6'', ''a8''] \<and>
   persistentAnchors (setOriginAnchor reliable (Some (Some newAnchor)) (fullStore (Some ''a7''))) \<noteq>
     Some [''a2'', ''a3'', ''a4'', ''a5'', ''a6'', ''a7'', ''a8'']"
  by (simp add: setOriginAnchor_def persistOrigin_def deletePersistentAnchor_def fullStore_def
        sevenAnchors_def reliable_def newAnchor_def MAX_PERSISTENT_ANCHORS_def Let_def)

lemma persisted_store:
  assumes "webXRSession s" and "xrRefSpace_sys s" and "requestPersistentHandle a"
    and "persistentAnchors s = Some handles"
  shows "persistentAnchors (setOriginAnchor env (Some (Some a)) s) =
           persistentAnchors (persistOrigin env handles s)"
    and "storedOriginAnchor (setOriginAnchor env (Some (Some a)) s) =
           storedOriginAnchor (persistOrigin env handles s)"
    and "anchorLog (setOriginAnchor env (Some (Some a)) s) =
           anchorLog (persistOrigin env handles s)"
  using assms by (simp_all add: setOriginAnchor_def Let_def)

lemma persist_no_old:
  assumes "[] \<notin> set handles" and "\<not> deleteOldestFails env" and "newHandle env = Some h"
    and "\<forall>old. storedOriginAnchor s = Some old \<longrightarrow> old \<notin> set handles"
  shows "persistentAnchors (persistOrigin env handles s) =
           Some ((if MAX_PERSISTENT_ANCHORS \<le> length handles then tl handles else handles) @ [h])"
  using assms
  by (cases handles)
     (auto simp: persistOrigin_def Let_def deletePersistentAnchor_def MAX_PERSISTENT_ANCHORS_def
        split: option.splits)

lemma persist_old:
  assumes "[] \<notin> set handles" and "\<not> deleteOldFails env" and "\<not> deleteOldestFails env"
    and "newHandle env = Some h"
    and "storedOriginAnchor s = Some old" and "old \<in> set handles"
  shows "persistentAnchors (persistOrigin env handles s) =
           Some ((if MAX_PERSISTENT_ANCHORS \<le> length (remove1 old handles)
                  then tl (remove1 old handles) else remove1 old handles) @ [h])"
proof -
  from assms(1,6) have ne: "old \<noteq> []" by auto
  have sub: "[] \<notin> set (remove1 old handles)"
    using assms(1) by (metis notin_set_remove1)
  show ?thesis
    using assms(2-6) ne sub
    by (cases "remove1 old handles")
       (auto simp: persistOrigin_def Let_def deletePersistentAnchor_def MAX_PERSISTENT_ANCHORS_def)
qed

text \<open>
  Claim C9, as the code has it, for a platform whose deletions and whose
  \<open>requestPersistentHandle\<close> succeed. The origin anchor persisted before (the handle under
  the key \<open>originAnchor\<close>) is deleted first when it is still in the store. If the store
  then still has at least \<open>MAX_PERSISTENT_ANCHORS = 7\<close> handles, exactly one more, the
  first of the list, is deleted, and the new handle is stored last. So:
  with no such handle in the store, a store of fewer than seven handles only gains the
  new handle and a store of seven or more loses its first handle;
  with such a handle in the store, a store of at most seven handles loses that handle and
  no other, whatever its age, and a store of more than seven loses that handle and the
  first of the remaining ones.
  A store of at most seven handles has at most seven afterwards, and the new handle is
  kept under the key.
\<close>

theorem anchor_store_eviction:
  assumes "webXRSession s" and "xrRefSpace_sys s" and "requestPersistentHandle a"
    and "persistentAnchors s = Some handles" and "[] \<notin> set handles"
    and "\<not> deleteOldFails env" and "\<not> deleteOldestFails env" and "newHandle env = Some h"
  shows "((\<forall>old. storedOriginAnchor s = Some old \<longrightarrow> old \<notin> set handles) \<and>
          length handles < MAX_PERSISTENT_ANCHORS \<longrightarrow>
            persistentAnchors (setOriginAnchor env (Some (Some a)) s) = Some (handles @ [h])) \<and>
         ((\<forall>old. storedOriginAnchor s = Some old \<longrightarrow> old \<notin> set handles) \<and>
          MAX_PERSISTENT_ANCHORS \<le> length handles \<longrightarrow>
            persistentAnchors (setOriginAnchor env (Some (Some a)) s) = Some (tl handles @ [h])) \<and>
         (\<forall>old. storedOriginAnchor s = Some old \<and> old \<in> set handles \<and>
                length handles \<le> MAX_PERSISTENT_ANCHORS \<longrightarrow>
            persistentAnchors (setOriginAnchor env (Some (Some a)) s) =
              Some (remove1 old handles @ [h])) \<and>
         (\<forall>old. storedOriginAnchor s = Some old \<and> old \<in> set handles \<and>
                MAX_PERSISTENT_ANCHORS < length handles \<longrightarrow>
            persistentAnchors (setOriginAnchor env (Some (Some a)) s) =
              Some (tl (remove1 old handles) @ [h])) \<and>
         (length handles \<le> MAX_PERSISTENT_ANCHORS \<longrightarrow>
            (\<exists>hs. persistentAnchors (setOriginAnchor env (Some (Some a)) s) = Some hs \<and>
                  length hs \<le> MAX_PERSISTENT_ANCHORS)) \<and>
         storedOriginAnchor (setOriginAnchor env (Some (Some a)) s) = Some h"
proof -
  let ?s' = "setOriginAnchor env (Some (Some a)) s"
  note p = persisted_store(1,2) [OF assms(1-4), of env]
  note no_old = persist_no_old [OF assms(5,7,8), of s]
  note with_old = persist_old [OF assms(5-8), of s]
  have len: "length (remove1 old handles) = length handles - 1 \<and> 0 < length handles"
    if "old \<in> set handles" for old
    using that by (auto simp: length_remove1 length_pos_if_in_set)
  have a1: "persistentAnchors ?s' = Some (handles @ [h])"
    if "(\<forall>old. storedOriginAnchor s = Some old \<longrightarrow> old \<notin> set handles) \<and>
        length handles < MAX_PERSISTENT_ANCHORS"
    using that no_old unfolding p by simp
  have a2: "persistentAnchors ?s' = Some (tl handles @ [h])"
    if "(\<forall>old. storedOriginAnchor s = Some old \<longrightarrow> old \<notin> set handles) \<and>
        MAX_PERSISTENT_ANCHORS \<le> length handles"
    using that no_old unfolding p by simp
  have a3: "persistentAnchors ?s' = Some (remove1 old handles @ [h])"
    if h: "storedOriginAnchor s = Some old \<and> old \<in> set handles \<and>
           length handles \<le> MAX_PERSISTENT_ANCHORS" for old
  proof -
    from h len [of old] have "\<not> MAX_PERSISTENT_ANCHORS \<le> length (remove1 old handles)"
      by linarith
    with h with_old [of old] show ?thesis unfolding p by simp
  qed
  have a4: "persistentAnchors ?s' = Some (tl (remove1 old handles) @ [h])"
    if h: "storedOriginAnchor s = Some old \<and> old \<in> set handles \<and>
           MAX_PERSISTENT_ANCHORS < length handles" for old
  proof -
    from h len [of old] have "MAX_PERSISTENT_ANCHORS \<le> length (remove1 old handles)"
      by linarith
    with h with_old [of old] show ?thesis unfolding p by simp
  qed
  have a5: "\<exists>hs. persistentAnchors ?s' = Some hs \<and> length hs \<le> MAX_PERSISTENT_ANCHORS"
    if le: "length handles \<le> MAX_PERSISTENT_ANCHORS"
  proof (cases "\<exists>old. storedOriginAnchor s = Some old \<and> old \<in> set handles")
    case True
    then obtain old where o: "storedOriginAnchor s = Some old" "old \<in> set handles" by blast
    with le a3 [of old] have "persistentAnchors ?s' = Some (remove1 old handles @ [h])" by simp
    with len [OF o(2)] le show ?thesis by simp
  next
    case False
    then have n: "\<forall>old. storedOriginAnchor s = Some old \<longrightarrow> old \<notin> set handles" by blast
    show ?thesis
    proof (cases "length handles < MAX_PERSISTENT_ANCHORS")
      case True
      with n a1 show ?thesis by simp
    next
      case False
      with le have e: "length handles = MAX_PERSISTENT_ANCHORS" by simp
      with n a2 have "persistentAnchors ?s' = Some (tl handles @ [h])" by simp
      with e show ?thesis by (simp add: MAX_PERSISTENT_ANCHORS_def)
    qed
  qed
  have a6: "storedOriginAnchor ?s' = Some h"
    using assms(8) unfolding p by (simp add: persistOrigin_def Let_def)
  from a1 a2 a3 a4 a5 a6 show ?thesis by blast
qed

theorem anchor_store_eviction_witness:
  "webXRSession (fullStore None) \<and> xrRefSpace_sys (fullStore None) \<and>
   requestPersistentHandle newAnchor \<and> persistentAnchors (fullStore None) = Some sevenAnchors \<and>
   [] \<notin> set sevenAnchors \<and> length sevenAnchors = MAX_PERSISTENT_ANCHORS \<and>
   \<not> deleteOldFails reliable \<and> \<not> deleteOldestFails reliable \<and> newHandle reliable = Some ''a8'' \<and>
   persistentAnchors (setOriginAnchor reliable (Some (Some newAnchor)) (fullStore None)) =
     Some [''a2'', ''a3'', ''a4'', ''a5'', ''a6'', ''a7'', ''a8''] \<and>
   storedOriginAnchor (setOriginAnchor reliable (Some (Some newAnchor)) (fullStore None)) = Some ''a8'' \<and>
   persistentAnchors (setOriginAnchor reliable (Some (Some newAnchor)) (fullStore (Some ''a3''))) =
     Some [''a1'', ''a2'', ''a4'', ''a5'', ''a6'', ''a7'', ''a8''] \<and>
   persistentAnchors (setOriginAnchor reliable (Some (Some newAnchor)) (fullStore (Some ''gone''))) =
     Some [''a2'', ''a3'', ''a4'', ''a5'', ''a6'', ''a7'', ''a8'']"
proof -
  have h: "webXRSession (fullStore x)" "xrRefSpace_sys (fullStore x)"
    "requestPersistentHandle newAnchor" "persistentAnchors (fullStore x) = Some sevenAnchors"
    "[] \<notin> set sevenAnchors" "\<not> deleteOldFails reliable" "\<not> deleteOldestFails reliable"
    "newHandle reliable = Some ''a8''" for x
    by (simp_all add: fullStore_def newAnchor_def sevenAnchors_def reliable_def)
  have l: "length sevenAnchors = MAX_PERSISTENT_ANCHORS"
    by (simp add: sevenAnchors_def MAX_PERSISTENT_ANCHORS_def)
  have n: "storedOriginAnchor (fullStore x) = x" for x by (simp add: fullStore_def)
  from anchor_store_eviction [where s = "fullStore None", OF h] l
  have a: "persistentAnchors (setOriginAnchor reliable (Some (Some newAnchor)) (fullStore None)) =
          Some (tl sevenAnchors @ [''a8''])"
    and b: "storedOriginAnchor (setOriginAnchor reliable (Some (Some newAnchor)) (fullStore None)) = Some ''a8''"
    by (simp_all add: n)
  have m: "''a3'' \<in> set sevenAnchors" by (simp add: sevenAnchors_def)
  from anchor_store_eviction [where s = "fullStore (Some ''a3'')", OF h] l m
  have c: "persistentAnchors (setOriginAnchor reliable (Some (Some newAnchor)) (fullStore (Some ''a3''))) =
          Some (remove1 ''a3'' sevenAnchors @ [''a8''])"
    by (simp add: n)
  have g: "''gone'' \<notin> set sevenAnchors" by (simp add: sevenAnchors_def)
  from anchor_store_eviction [where s = "fullStore (Some ''gone'')", OF h] l g
  have d: "persistentAnchors (setOriginAnchor reliable (Some (Some newAnchor)) (fullStore (Some ''gone''))) =
          Some (tl sevenAnchors @ [''a8''])"
    by (simp add: n)
  from a b c d h(1,2,4) [of None] h(3,5-8) l show ?thesis by (simp add: sevenAnchors_def)
qed


end
